theory Spec2Isabelle
  imports Main "HOL-Library.Sublist"
begin

section \<open>Python string operations used by m3u8\_download.py\<close>

text \<open>
  A Python \<open>str\<close> is modelled as a \<open>string\<close> (a list of 8-bit characters).
  \<open>py_isspace\<close> holds for the characters below 128 that \<open>str.strip()\<close> removes:
  tab, line feed, vertical tab, form feed, carriage return, the four separators
  0x1C..0x1F and the space.
\<close>

definition py_isspace :: "char \<Rightarrow> bool" where
  "py_isspace c =
     (c = CHR 0x09 \<or> c = CHR 0x0A \<or> c = CHR 0x0B \<or> c = CHR 0x0C \<or> c = CHR 0x0D \<or>
      c = CHR 0x1C \<or> c = CHR 0x1D \<or> c = CHR 0x1E \<or> c = CHR 0x1F \<or> c = CHR 0x20)"

definition lstrip :: "string \<Rightarrow> string" where
  "lstrip s = dropWhile py_isspace s"

definition strip :: "string \<Rightarrow> string" where
  "strip s = rev (dropWhile py_isspace (rev (lstrip s)))"

text \<open>\<open>s.split(sep)\<close> for a one-character separator: never the empty list.\<close>

fun split_on :: "char \<Rightarrow> string \<Rightarrow> string list" where
  "split_on sep [] = [[]]"
| "split_on sep (c # cs) =
     (if c = sep then [] # split_on sep cs
      else (case split_on sep cs of
              w # ws \<Rightarrow> (c # w) # ws
            | [] \<Rightarrow> [[c]]))"

text \<open>\<open>sep.join(xs)\<close> for a one-character separator.\<close>

fun join_with :: "char \<Rightarrow> string list \<Rightarrow> string" where
  "join_with sep [] = []"
| "join_with sep [x] = x"
| "join_with sep (x # y # ys) = x @ sep # join_with sep (y # ys)"

definition startswith :: "string \<Rightarrow> string \<Rightarrow> bool" where
  "startswith s p = (take (length p) s = p)"

definition endswith :: "string \<Rightarrow> string \<Rightarrow> bool" where
  "endswith s p = (length p \<le> length s \<and> drop (length s - length p) s = p)"

text \<open>\<open>sub in s\<close> on strings: \<open>sub\<close> occurs as a contiguous substring.\<close>

fun contains :: "string \<Rightarrow> string \<Rightarrow> bool" where
  "contains [] sub = (sub = [])"
| "contains (c # cs) sub = (startswith (c # cs) sub \<or> contains cs sub)"

text \<open>\<open>s.rsplit(sep, 1)[0]\<close>: the part before the last separator, or all of
  \<open>s\<close> when it has none.\<close>

fun rsplit1_head :: "char \<Rightarrow> string \<Rightarrow> string" where
  "rsplit1_head sep [] = []"
| "rsplit1_head sep (c # cs) =
     (if sep \<in> set cs then c # rsplit1_head sep cs
      else if c = sep then []
      else c # cs)"

text \<open>\<open>str(n)\<close> for a non-negative integer, as the f-string formats it.\<close>

definition digit_char :: "nat \<Rightarrow> char" where
  "digit_char d = char_of (48 + d)"

fun str_nat :: "nat \<Rightarrow> string" where
  "str_nat n = (if n < 10 then [digit_char n] else str_nat (n div 10) @ [digit_char (n mod 10)])"

declare str_nat.simps [simp del]


section \<open>The ad-segment filter\<close>

definition DISCONTINUITY :: string where
  "DISCONTINUITY = ''#EXT-X-DISCONTINUITY''"

definition is_discontinuity :: "string \<Rightarrow> bool" where
  "is_discontinuity line = startswith line DISCONTINUITY"

definition manifest_lines :: "string \<Rightarrow> string list" where
  "manifest_lines m3u8_content = split_on CHR 0x0A (strip m3u8_content)"

text \<open>
  The loop of the first definition of \<open>filter_ad_segments\<close> (source lines 100 to 139):
  the remaining lines, \<open>discontinuity_count\<close>, \<open>skip_segment\<close> and
  \<open>filtered_lines\<close> so far.
\<close>

fun filter_loop_first :: "string list \<Rightarrow> nat \<Rightarrow> bool \<Rightarrow> string list \<Rightarrow> string list" where
  "filter_loop_first [] discontinuity_count skip_segment filtered_lines = filtered_lines"
| "filter_loop_first (line # lines) discontinuity_count skip_segment filtered_lines =
     (if startswith line ''#EXT-X-DISCONTINUITY'' then
        (let discontinuity_count = discontinuity_count + 1 in
         if discontinuity_count = 1 then
           filter_loop_first lines discontinuity_count False (filtered_lines @ [line])
         else if discontinuity_count mod 2 = 0 then
           filter_loop_first lines discontinuity_count True filtered_lines
         else
           filter_loop_first lines discontinuity_count False (filtered_lines @ [line]))
      else if \<not> skip_segment then
        filter_loop_first lines discontinuity_count skip_segment (filtered_lines @ [line])
      else
        filter_loop_first lines discontinuity_count skip_segment filtered_lines)"

definition filter_ad_segments_first :: "string \<Rightarrow> string" where
  "filter_ad_segments_first m3u8_content =
     join_with CHR 0x0A (filter_loop_first (manifest_lines m3u8_content) 0 False [])"

text \<open>
  The loop of the second definition (source lines 141 to 175), the one in force when
  the module has loaded.
\<close>

fun filter_loop :: "string list \<Rightarrow> nat \<Rightarrow> bool \<Rightarrow> string list \<Rightarrow> string list" where
  "filter_loop [] discontinuity_count skip_segment filtered_lines = filtered_lines"
| "filter_loop (line # lines) discontinuity_count skip_segment filtered_lines =
     (if is_discontinuity line then
        (let discontinuity_count = discontinuity_count + 1 in
         if discontinuity_count = 1 then
           filter_loop lines discontinuity_count False (filtered_lines @ [line])
         else if discontinuity_count mod 2 = 0 then
           filter_loop lines discontinuity_count True filtered_lines
         else
           filter_loop lines discontinuity_count False (filtered_lines @ [line]))
      else if \<not> skip_segment then
        filter_loop lines discontinuity_count skip_segment (filtered_lines @ [line])
      else
        filter_loop lines discontinuity_count skip_segment filtered_lines)"

definition filtered_lines_of :: "string \<Rightarrow> string list" where
  "filtered_lines_of m3u8_content = filter_loop (manifest_lines m3u8_content) 0 False []"

definition filter_ad_segments :: "string \<Rightarrow> string" where
  "filter_ad_segments m3u8_content = join_with CHR 0x0A (filtered_lines_of m3u8_content)"

text \<open>
  The filter as the specification words it: a fold over the lines with the state
  \<open>(count, skip)\<close>, each step giving the new state and the line it emits, if any.
\<close>

definition spec_step :: "nat \<times> bool \<Rightarrow> string \<Rightarrow> (nat \<times> bool) \<times> string option" where
  "spec_step st line =
     (let (count, skip) = st in
      if is_discontinuity line then
        (if count + 1 = 1 then ((count + 1, False), Some line)
         else if even (count + 1) then ((count + 1, True), None)
         else ((count + 1, False), Some line))
      else ((count, skip), if skip then None else Some line))"

fun spec_walk :: "nat \<times> bool \<Rightarrow> string list \<Rightarrow> string list" where
  "spec_walk st [] = []"
| "spec_walk st (line # lines) =
     (case spec_step st line of
        (st', None) \<Rightarrow> spec_walk st' lines
      | (st', Some l) \<Rightarrow> l # spec_walk st' lines)"


section \<open>Output name normalisation\<close>

text \<open>
  The first statement of \<open>download_m3u8_video_to_mp4\<close> and of
  \<open>download_m3u8_video_to_mp4_with_resume\<close> (source lines 19 to 20 and 270 to 271):
  the value of \<open>output_filename\<close> after it.
\<close>

definition normalize_output_filename :: "string \<Rightarrow> string" where
  "normalize_output_filename output_filename =
     (if \<not> endswith output_filename ''.mp4''
      then rsplit1_head CHR ''.'' output_filename @ ''.mp4''
      else output_filename)"


section \<open>Files, errors and the stream assembler\<close>

text \<open>
  The file system maps a file name to the file's content; a content is a list of
  bytes, written as a \<open>string\<close>. Console output is not modelled. Writing a file always
  succeeds; opening a missing file for reading raises \<open>FileNotFoundError\<close>.
\<close>

type_synonym fs = "string \<rightharpoonup> string"

datatype error =
    FileNotFoundError string
  | JSONDecodeError
  | RequestError string

text \<open>
  \<open>concatenate_videos\<close>: the destination is opened for writing (created or truncated),
  then every input is read whole and appended. A write is visible at once in the
  model; the source buffers it, which only matters when the destination is also one
  of the inputs.
\<close>

fun concatenate_loop :: "string list \<Rightarrow> string \<Rightarrow> fs \<Rightarrow> (error + unit) \<times> fs" where
  "concatenate_loop [] output_filename fs = (Inr (), fs)"
| "concatenate_loop (ts_file # ts_files) output_filename fs =
     (case fs ts_file of
        None \<Rightarrow> (Inl (FileNotFoundError ts_file), fs)
      | Some content \<Rightarrow>
          concatenate_loop ts_files output_filename
            (fs(output_filename \<mapsto> (case fs output_filename of
                                        None \<Rightarrow> content
                                      | Some written \<Rightarrow> written @ content))))"

definition concatenate_videos :: "string list \<Rightarrow> string \<Rightarrow> fs \<Rightarrow> (error + unit) \<times> fs" where
  "concatenate_videos ts_files output_filename fs =
     concatenate_loop ts_files output_filename (fs(output_filename \<mapsto> []))"


section \<open>The resume state store\<close>

record download_state =
  downloaded_segments :: "string list"
  total_segments :: int

text \<open>
  The library functions the module calls are parameters of the model:
  \<open>urljoin\<close>, the \<open>path\<close> of \<open>urlparse\<close>, \<open>os.path.basename\<close>, the hexadecimal
  MD5 digest, \<open>json.load\<close> (\<open>None\<close> when it raises; the records it accepts are the
  dictionaries with the two keys the module writes), \<open>json.dump\<close>, and the
  network: \<open>http_get n url\<close> is the outcome of \<open>requests.get\<close> followed by
  \<open>raise_for_status\<close> for the request number \<open>n\<close> of the run (the headers are part
  of it), \<open>Inl\<close> when either raises and the body otherwise.
\<close>

record lib =
  urljoin :: "string \<Rightarrow> string \<Rightarrow> string"
  url_path :: "string \<Rightarrow> string"
  basename :: "string \<Rightarrow> string"
  md5_hexdigest :: "string \<Rightarrow> string"
  json_load :: "string \<Rightarrow> download_state option"
  json_dump :: "download_state \<Rightarrow> string"
  http_get :: "nat \<Rightarrow> string \<Rightarrow> error + string"

text \<open>The world a fetch pass acts on: the files and the log of the GET requests made.\<close>

record world =
  files :: fs
  requests :: "string list"

definition get_download_state_filename :: "lib \<Rightarrow> string \<Rightarrow> string" where
  "get_download_state_filename L m3u8_url =
     ''download_state_'' @ md5_hexdigest L m3u8_url @ ''.json''"

definition default_state :: download_state where
  "default_state = \<lparr>downloaded_segments = [], total_segments = 0\<rparr>"

definition load_download_state :: "lib \<Rightarrow> string \<Rightarrow> fs \<Rightarrow> error + download_state" where
  "load_download_state L m3u8_url fs =
     (let state_file = get_download_state_filename L m3u8_url in
      case fs state_file of
        None \<Rightarrow> Inr default_state
      | Some text \<Rightarrow>
          (case json_load L text of
             None \<Rightarrow> Inl JSONDecodeError
           | Some state \<Rightarrow> Inr state))"

definition save_download_state :: "lib \<Rightarrow> string \<Rightarrow> download_state \<Rightarrow> fs \<Rightarrow> fs" where
  "save_download_state L m3u8_url state fs =
     (let state_file = get_download_state_filename L m3u8_url in
      fs(state_file \<mapsto> json_dump L state))"


section \<open>The segment fetchers\<close>

definition is_ts_line :: "string \<Rightarrow> bool" where
  "is_ts_line line = (endswith line ''.ts'' \<or> contains line ''.ts?'')"

text \<open>The file name of a segment, given its URL and the length of \<open>ts_files\<close>.\<close>

definition segment_filename :: "lib \<Rightarrow> string \<Rightarrow> nat \<Rightarrow> string" where
  "segment_filename L ts_url n =
     (let filename = basename L (url_path L ts_url) in
      if filename = [] then ''segment_'' @ str_nat n @ ''.ts'' else filename)"

text \<open>\<open>download_ts_segments\<close> (source lines 177 to 209).\<close>

fun download_loop ::
  "lib \<Rightarrow> string \<Rightarrow> string list \<Rightarrow> world \<Rightarrow> string list \<Rightarrow> (error + string list) \<times> world" where
  "download_loop L base_url [] w ts_files = (Inr ts_files, w)"
| "download_loop L base_url (line # lines) w ts_files =
     (if is_ts_line line then
        (let ts_url = urljoin L base_url line;
             filename = segment_filename L ts_url (length ts_files);
             w1 = w\<lparr>requests := requests w @ [ts_url]\<rparr>
         in case http_get L (length (requests w)) ts_url of
              Inl e \<Rightarrow> (Inl e, w1)
            | Inr content \<Rightarrow>
                download_loop L base_url lines
                  (w1\<lparr>files := (files w1)(filename \<mapsto> content)\<rparr>) (ts_files @ [filename]))
      else download_loop L base_url lines w ts_files)"

definition download_ts_segments ::
  "lib \<Rightarrow> string \<Rightarrow> string \<Rightarrow> world \<Rightarrow> (error + string list) \<times> world" where
  "download_ts_segments L m3u8_content base_url w =
     download_loop L base_url (manifest_lines m3u8_content) w []"

text \<open>
  The bookkeeping after a fetched segment: \<open>downloaded_list\<close> is the list inside
  \<open>download_state\<close>, and the name is appended unless it is there.
\<close>

definition record_segment :: "string \<Rightarrow> download_state \<Rightarrow> download_state" where
  "record_segment filename download_state =
     (let downloaded_list = downloaded_segments download_state in
      download_state\<lparr>downloaded_segments :=
        (if filename \<notin> set downloaded_list then downloaded_list @ [filename]
         else downloaded_list)\<rparr>)"

text \<open>
  The loop of \<open>download_ts_segments_with_resume\<close> (source lines 336 to 373), on the
  world, \<open>ts_files\<close> and \<open>download_state\<close>. \<open>segment_index\<close> is only printed.
\<close>

fun resume_loop ::
  "lib \<Rightarrow> string \<Rightarrow> string set \<Rightarrow> string \<Rightarrow> string list \<Rightarrow>
   world \<Rightarrow> string list \<Rightarrow> download_state \<Rightarrow>
   (error + string list \<times> download_state) \<times> world" where
  "resume_loop L base_url downloaded m3u8_url [] w ts_files download_state =
     (Inr (ts_files, download_state), w)"
| "resume_loop L base_url downloaded m3u8_url (line # lines) w ts_files download_state =
     (if is_ts_line line then
        (let ts_url = urljoin L base_url line;
             filename = segment_filename L ts_url (length ts_files)
         in if filename \<in> downloaded then
              resume_loop L base_url downloaded m3u8_url lines w
                (ts_files @ [filename]) download_state
            else
              (let w1 = w\<lparr>requests := requests w @ [ts_url]\<rparr>
               in case http_get L (length (requests w)) ts_url of
                    Inl e \<Rightarrow> (Inl e, w1)
                  | Inr content \<Rightarrow>
                      (let w2 = w1\<lparr>files := (files w1)(filename \<mapsto> content)\<rparr>;
                           download_state = record_segment filename download_state;
                           w3 = w2\<lparr>files :=
                                  save_download_state L m3u8_url download_state (files w2)\<rparr>
                       in resume_loop L base_url downloaded m3u8_url lines w3
                            (ts_files @ [filename]) download_state)))
      else resume_loop L base_url downloaded m3u8_url lines w ts_files download_state)"

definition download_ts_segments_with_resume ::
  "lib \<Rightarrow> string \<Rightarrow> string \<Rightarrow> string set \<Rightarrow> string \<Rightarrow> world \<Rightarrow>
   (error + string list) \<times> world" where
  "download_ts_segments_with_resume L m3u8_content base_url downloaded m3u8_url w =
     (let lines = manifest_lines m3u8_content in
      case load_download_state L m3u8_url (files w) of
        Inl e \<Rightarrow> (Inl e, w)
      | Inr download_state \<Rightarrow>
          (let total_segments = length (filter is_ts_line lines);
               download_state = download_state\<lparr>total_segments := int total_segments\<rparr>;
               w0 = w\<lparr>files := save_download_state L m3u8_url download_state (files w)\<rparr>
           in case resume_loop L base_url downloaded m3u8_url lines w0 [] download_state of
                (Inl e, w') \<Rightarrow> (Inl e, w')
              | (Inr (ts_files, _), w') \<Rightarrow> (Inr ts_files, w')))"

text \<open>
  The segments of a manifest in order, each with its URL and its file name: the
  \<open>n\<close>-th matched line counts from \<open>k\<close>.
\<close>

fun segment_plan :: "lib \<Rightarrow> string \<Rightarrow> nat \<Rightarrow> string list \<Rightarrow> (string \<times> string) list" where
  "segment_plan L base_url k [] = []"
| "segment_plan L base_url k (line # lines) =
     (if is_ts_line line then
        (urljoin L base_url line, segment_filename L (urljoin L base_url line) k)
          # segment_plan L base_url (Suc k) lines
      else segment_plan L base_url k lines)"

definition to_fetch :: "string set \<Rightarrow> (string \<times> string) list \<Rightarrow> (string \<times> string) list" where
  "to_fetch downloaded plan = filter (\<lambda>p. snd p \<notin> downloaded) plan"

text \<open>
  The state on disk after the segments of \<open>pre\<close> that had to be fetched have
  been recorded, one after the other, starting from \<open>st\<close>.
\<close>

definition persisted_after ::
  "string set \<Rightarrow> (string \<times> string) list \<Rightarrow> download_state \<Rightarrow> download_state" where
  "persisted_after C pre st = fold record_segment (map snd (to_fetch C pre)) st"


section \<open>Inputs used as examples\<close>

definition scenario_manifest :: string where
  "scenario_manifest =
     join_with CHR 0x0A
       [''#EXTM3U'',
        ''#EXT-X-DISCONTINUITY'', ''1.ts'', ''2.ts'',
        ''#EXT-X-DISCONTINUITY'', ''3.ts'', ''4.ts'',
        ''#EXT-X-DISCONTINUITY'', ''5.ts'', ''6.ts'',
        ''#EXT-X-DISCONTINUITY'', ''7.ts'', ''8.ts'',
        ''#EXT-X-DISCONTINUITY'', ''9.ts'', ''10.ts'',
        ''#EXT-X-DISCONTINUITY'',
        ''#EXT-X-DISCONTINUITY'', ''#EXT-X-ENDLIST'', '''']"

definition one_marker_manifest :: string where
  "one_marker_manifest = join_with CHR 0x0A [''#EXTM3U'', ''#EXT-X-DISCONTINUITY'', ''a.ts'', '''']"

text \<open>
  A small instance of the library parameters, for the examples only: URLs are joined
  by concatenation, the path is the part before the first question mark, the base name
  is the part after the last slash, the digest is a stand-in, the state is serialised
  as one line of \<open>total_segments\<close> strokes followed by one line per segment name, and
  a GET fails when the URL contains \<open>missing\<close>.
\<close>

definition toy_dump :: "download_state \<Rightarrow> string" where
  "toy_dump st =
     join_with CHR 0x0A (replicate (nat (total_segments st)) CHR ''I'' # downloaded_segments st)"

definition toy_load :: "string \<Rightarrow> download_state option" where
  "toy_load s =
     (case split_on CHR 0x0A s of
        [] \<Rightarrow> None
      | n # names \<Rightarrow>
          if list_all (\<lambda>c. c = CHR ''I'') n
          then Some \<lparr>downloaded_segments = names, total_segments = int (length n)\<rparr>
          else None)"

definition toy_basename :: "string \<Rightarrow> string" where
  "toy_basename p = rev (takeWhile (\<lambda>c. c \<noteq> CHR ''/'') (rev p))"

definition toy_lib :: lib where
  "toy_lib =
     \<lparr>urljoin = (\<lambda>base line. base @ line),
      url_path = takeWhile (\<lambda>c. c \<noteq> CHR ''?''),
      basename = toy_basename,
      md5_hexdigest = (\<lambda>url. str_nat (length url)),
      json_load = toy_load,
      json_dump = toy_dump,
      http_get = (\<lambda>n url. if contains url ''missing'' then Inl (RequestError url)
                           else Inr (''data:'' @ url))\<rparr>"

definition three_files :: fs where
  "three_files = [''a.ts'' \<mapsto> ''0123456789'', ''b.ts'' \<mapsto> [], ''c.ts'' \<mapsto> ''abcdefg'']"

definition corrupt_store :: fs where
  "corrupt_store = [get_download_state_filename toy_lib ''http://h/v.m3u8'' \<mapsto> ''{\"downloaded''] "

definition empty_world :: world where
  "empty_world = \<lparr>files = Map.empty, requests = []\<rparr>"

definition three_segments :: string where
  "three_segments = join_with CHR 0x0A [''#EXTM3U'', ''seg_1.ts'', ''seg_2.ts'', ''seg_3.ts'']"

definition failing_manifest :: string where
  "failing_manifest =
     join_with CHR 0x0A [''#EXTM3U'', ''seg_1.ts'', ''seg_2.ts'', ''missing_3.ts'', ''seg_4.ts'']"

definition unnamed_manifest :: string where
  "unnamed_manifest = join_with CHR 0x0A [''a.ts'', ''dir/?x=.ts'']"

definition saved_store :: fs where
  "saved_store = [get_download_state_filename toy_lib ''http://h/v.m3u8'' \<mapsto>
                    toy_dump \<lparr>downloaded_segments = [''seg_1.ts''], total_segments = 3\<rparr>]"


section \<open>Properties of the filter\<close>

lemma filter_loop_first_eq: "filter_loop_first ls c sk acc = filter_loop ls c sk acc"
  by (induction ls arbitrary: c sk acc) (simp_all add: is_discontinuity_def DISCONTINUITY_def Let_def)

lemma filter_loop_spec: "filter_loop ls c sk acc = acc @ spec_walk (c, sk) ls"
  by (induction ls arbitrary: c sk acc)
     (simp_all add: spec_step_def Let_def even_iff_mod_2_eq_zero [symmetric] del: mod_Suc_eq_mod_add3)

lemma join_split: "join_with sep (split_on sep s) = s"
proof (induction s)
  case Nil show ?case by simp
next
  case (Cons c cs)
  show ?case
  proof (cases "c = sep")
    case True
    then show ?thesis using Cons by (cases "split_on sep cs") simp_all
  next
    case False
    then show ?thesis using Cons by (cases "split_on sep cs"; cases "tl (split_on sep cs)") auto
  qed
qed

lemma split_on_nonempty: "split_on sep s \<noteq> []"
  by (induction s) (auto split: list.splits)

lemma split_on_no_sep: "l \<in> set (split_on sep s) \<Longrightarrow> sep \<notin> set l"
  by (induction s arbitrary: l) (auto split: list.splits if_splits)

lemma split_join: "ls \<noteq> [] \<Longrightarrow> \<forall>l\<in>set ls. sep \<notin> set l \<Longrightarrow> split_on sep (join_with sep ls) = ls"
proof (induction sep ls rule: join_with.induct)
  case (1 sep) then show ?case by simp
next
  case (2 sep x)
  then show ?case by (induction x) (auto split: list.splits)
next
  case (3 sep x y ys)
  have "split_on sep (x @ sep # r) = x # split_on sep r" if "sep \<notin> set x" for r
    using that by (induction x) (auto split: list.splits)
  then show ?case using 3 by simp
qed

lemma spec_walk_subseq: "subseq (spec_walk st ls) ls"
  by (induction ls arbitrary: st) (auto simp: spec_step_def Let_def split: prod.splits option.splits if_splits)

lemma spec_walk_le1:
  "length (filter is_discontinuity ls) + c \<le> 1 \<Longrightarrow> spec_walk (c, False) ls = ls"
  by (induction ls arbitrary: c) (auto simp: spec_step_def Let_def)

lemma spec_walk_length: "length (spec_walk st ls) \<le> length ls"
  by (induction ls arbitrary: st)
     (auto simp: spec_step_def Let_def le_SucI split: prod.splits option.splits if_splits)

lemma spec_walk_shorter:
  "(if odd c then 1 else 2) \<le> length (filter is_discontinuity ls) \<Longrightarrow>
   length (spec_walk (c, sk) ls) < length ls"
proof (induction ls arbitrary: c sk)
  case Nil
  then show ?case by (simp split: if_splits)
next
  case (Cons l ls)
  show ?case
  proof (cases "is_discontinuity l")
    case True
    show ?thesis
    proof (cases "odd c")
      case True
      with \<open>is_discontinuity l\<close> show ?thesis
        using spec_walk_length [of "(Suc c, True)" ls] by (auto simp: spec_step_def less_Suc_eq_le)
    next
      case False
      then have n: "(if odd (Suc c) then 1 else 2) \<le> length (filter is_discontinuity ls)"
        using Cons.prems True by simp
      with False \<open>is_discontinuity l\<close> show ?thesis
        using Cons.IH [OF n, of False] by (auto simp: spec_step_def)
    qed
  next
    case False
    then have n: "(if odd c then 1 else 2) \<le> length (filter is_discontinuity ls)"
      using Cons.prems by simp
    show ?thesis using False Cons.IH [OF n, of sk]
      by (auto simp: spec_step_def)
  qed
qed

lemma spec_walk_nonempty: "ls \<noteq> [] \<Longrightarrow> spec_walk (0, False) ls \<noteq> []"
  by (cases ls) (auto simp: spec_step_def)

lemma spec_walk_set: "l \<in> set (spec_walk st ls) \<Longrightarrow> l \<in> set ls"
  using spec_walk_subseq [of st ls] by (auto dest: list_emb_set)

lemma filtered_lines_spec: "filtered_lines_of m = spec_walk (0, False) (manifest_lines m)"
  by (simp add: filtered_lines_of_def filter_loop_spec)

lemma manifest_lines_nonempty: "manifest_lines m \<noteq> []"
  by (simp add: manifest_lines_def split_on_nonempty)

lemma join_manifest_lines: "join_with CHR 0x0A (manifest_lines m) = strip m"
  by (simp add: manifest_lines_def join_split)

lemma split_filtered: "split_on CHR 0x0A (filter_ad_segments m) = filtered_lines_of m"
  unfolding filter_ad_segments_def
proof (rule split_join)
  show "filtered_lines_of m \<noteq> []"
    by (simp add: filtered_lines_spec spec_walk_nonempty manifest_lines_nonempty)
  show "\<forall>l\<in>set (filtered_lines_of m). CHR 0x0A \<notin> set l"
    using spec_walk_set [of _ "(0, False)" "manifest_lines m"] split_on_no_sep [of _ "CHR 0x0A" "strip m"]
    by (auto simp: filtered_lines_spec manifest_lines_def)
qed

lemma spec_walk_block:
  "\<forall>l\<in>set b. \<not> is_discontinuity l \<Longrightarrow>
   spec_walk (c, sk) (b @ ls) = (if sk then [] else b) @ spec_walk (c, sk) ls"
  by (induction b) (auto simp: spec_step_def)

lemma spec_walk_marker:
  "is_discontinuity d \<Longrightarrow>
   spec_walk (c, sk) (d # ls) =
     (if c = 0 \<or> odd (Suc c) then d # spec_walk (Suc c, False) ls else spec_walk (Suc c, True) ls)"
  by (auto simp: spec_step_def)

lemma seven_markers:
  assumes m: "is_discontinuity d1" "is_discontinuity d2" "is_discontinuity d3"
      "is_discontinuity d4" "is_discontinuity d5" "is_discontinuity d6" "is_discontinuity d7"
    and b: "\<forall>l\<in>set (b0 @ b1 @ b2 @ b3 @ b4 @ b5 @ b6 @ b7). \<not> is_discontinuity l"
  shows "spec_walk (0, False)
           (b0 @ d1 # b1 @ d2 # b2 @ d3 # b3 @ d4 # b4 @ d5 # b5 @ d6 # b6 @ d7 # b7) =
         b0 @ d1 # b1 @ d3 # b3 @ d5 # b5 @ d7 # b7"
proof -
  have b': "\<forall>l\<in>set b0. \<not> is_discontinuity l" "\<forall>l\<in>set b1. \<not> is_discontinuity l"
    "\<forall>l\<in>set b2. \<not> is_discontinuity l" "\<forall>l\<in>set b3. \<not> is_discontinuity l"
    "\<forall>l\<in>set b4. \<not> is_discontinuity l" "\<forall>l\<in>set b5. \<not> is_discontinuity l"
    "\<forall>l\<in>set b6. \<not> is_discontinuity l" "\<forall>l\<in>set b7. \<not> is_discontinuity l"
    using b by auto
  have e: "spec_walk (c, sk) b7 = (if sk then [] else b7)" for c sk
    using spec_walk_block [OF b'(8), of c sk "[]"] by simp
  show ?thesis
    by (simp add: spec_walk_block b' spec_walk_marker m e del: spec_walk.simps(2))
qed

text \<open>
  Claim C10. The two successive definitions of \<open>filter_ad_segments\<close> in the source
  return the same string for every manifest text, so the second one shadowing the
  first changes no behaviour.
\<close>
theorem filter_ad_segments_definitions_agree:
  "filter_ad_segments_first m3u8_content = filter_ad_segments m3u8_content"
  by (simp add: filter_ad_segments_first_def filter_ad_segments_def filtered_lines_of_def
      filter_loop_first_eq)

text \<open>
  Claim C1. For every manifest text, \<open>filter_ad_segments\<close> is the walk of the
  specification over the trimmed, newline-split lines, from count 0 and skip false,
  joined with newlines. In particular, when the lines hold seven discontinuity markers
  and ten segments, segments 3 and 4 between markers 2 and 3, segments 7 and 8 between
  markers 4 and 5, and no segment between markers 6 and 7, the lines kept are the ones
  outside the spans 2 to 3, 4 to 5 and 6 to 7, markers 2, 4 and 6 are dropped, and the
  segments kept are 1, 2, 5, 6, 9 and 10.
\<close>
theorem filter_ad_segments_parity_rule:
  "filter_ad_segments m = join_with CHR 0x0A (spec_walk (0, False) (manifest_lines m)) \<and>
   (manifest_lines m = b0 @ d1 # b1 @ d2 # b2 @ d3 # b3 @ d4 # b4 @ d5 # b5 @ d6 # b6 @ d7 # b7 \<and>
    (\<forall>d\<in>set [d1, d2, d3, d4, d5, d6, d7]. is_discontinuity d \<and> \<not> is_ts_line d) \<and>
    (\<forall>l\<in>set (b0 @ b1 @ b2 @ b3 @ b4 @ b5 @ b6 @ b7). \<not> is_discontinuity l) \<and>
    filter is_ts_line (b0 @ b1) = [s1, s2] \<and> filter is_ts_line b2 = [s3, s4] \<and>
    filter is_ts_line b3 = [s5, s6] \<and> filter is_ts_line b4 = [s7, s8] \<and>
    filter is_ts_line (b5 @ b7) = [s9, s10] \<and> filter is_ts_line b6 = []
    \<longrightarrow>
    filtered_lines_of m = b0 @ d1 # b1 @ d3 # b3 @ d5 # b5 @ d7 # b7 \<and>
    filter is_ts_line (manifest_lines m) = [s1, s2, s3, s4, s5, s6, s7, s8, s9, s10] \<and>
    filter is_ts_line (filtered_lines_of m) = [s1, s2, s5, s6, s9, s10])"
proof (intro conjI impI)
  show "filter_ad_segments m = join_with CHR 0x0A (spec_walk (0, False) (manifest_lines m))"
    by (simp add: filter_ad_segments_def filtered_lines_spec)
next
  assume h: "manifest_lines m = b0 @ d1 # b1 @ d2 # b2 @ d3 # b3 @ d4 # b4 @ d5 # b5 @ d6 # b6 @ d7 # b7 \<and>
    (\<forall>d\<in>set [d1, d2, d3, d4, d5, d6, d7]. is_discontinuity d \<and> \<not> is_ts_line d) \<and>
    (\<forall>l\<in>set (b0 @ b1 @ b2 @ b3 @ b4 @ b5 @ b6 @ b7). \<not> is_discontinuity l) \<and>
    filter is_ts_line (b0 @ b1) = [s1, s2] \<and> filter is_ts_line b2 = [s3, s4] \<and>
    filter is_ts_line b3 = [s5, s6] \<and> filter is_ts_line b4 = [s7, s8] \<and>
    filter is_ts_line (b5 @ b7) = [s9, s10] \<and> filter is_ts_line b6 = []"
  then have d: "is_discontinuity d1" "is_discontinuity d2" "is_discontinuity d3"
      "is_discontinuity d4" "is_discontinuity d5" "is_discontinuity d6" "is_discontinuity d7"
    by simp_all
  from h have b: "\<forall>l\<in>set (b0 @ b1 @ b2 @ b3 @ b4 @ b5 @ b6 @ b7). \<not> is_discontinuity l"
    by blast
  from h have nd: "\<not> is_ts_line d1" "\<not> is_ts_line d2" "\<not> is_ts_line d3" "\<not> is_ts_line d4"
     "\<not> is_ts_line d5" "\<not> is_ts_line d6" "\<not> is_ts_line d7"
    by simp_all
  from h have s: "filter is_ts_line b0 @ filter is_ts_line b1 = [s1, s2]"
     "filter is_ts_line b2 = [s3, s4]" "filter is_ts_line b3 = [s5, s6]"
     "filter is_ts_line b4 = [s7, s8]" "filter is_ts_line b5 @ filter is_ts_line b7 = [s9, s10]"
     "filter is_ts_line b6 = []"
    by simp_all
  from h have ml: "manifest_lines m = b0 @ d1 # b1 @ d2 # b2 @ d3 # b3 @ d4 # b4 @ d5 # b5 @ d6 # b6 @ d7 # b7"
    by blast
  show fl: "filtered_lines_of m = b0 @ d1 # b1 @ d3 # b3 @ d5 # b5 @ d7 # b7"
    unfolding filtered_lines_spec ml by (rule seven_markers [OF d b])
  have a: "filter is_ts_line b0 @ filter is_ts_line b1 @ r = [s1, s2] @ r" for r
    using s(1) by (metis append_assoc)
  show "filter is_ts_line (manifest_lines m) = [s1, s2, s3, s4, s5, s6, s7, s8, s9, s10]"
    unfolding ml using s(5) by (simp add: nd a s(2,3,4,6))
  show "filter is_ts_line (filtered_lines_of m) = [s1, s2, s5, s6, s9, s10]"
    unfolding fl using s(5) by (simp add: nd a s(2,3,4,6))
qed

lemma scenario_lines:
  "manifest_lines scenario_manifest =
     [''#EXTM3U''] @ ''#EXT-X-DISCONTINUITY'' # [''1.ts'', ''2.ts''] @
     ''#EXT-X-DISCONTINUITY'' # [''3.ts'', ''4.ts''] @
     ''#EXT-X-DISCONTINUITY'' # [''5.ts'', ''6.ts''] @
     ''#EXT-X-DISCONTINUITY'' # [''7.ts'', ''8.ts''] @
     ''#EXT-X-DISCONTINUITY'' # [''9.ts'', ''10.ts''] @
     ''#EXT-X-DISCONTINUITY'' # [] @
     ''#EXT-X-DISCONTINUITY'' # [''#EXT-X-ENDLIST'']"
  by code_simp

theorem filter_ad_segments_parity_rule_witness:
  "filter is_ts_line (manifest_lines scenario_manifest) =
     [''1.ts'', ''2.ts'', ''3.ts'', ''4.ts'', ''5.ts'', ''6.ts'', ''7.ts'', ''8.ts'', ''9.ts'', ''10.ts''] \<and>
   length (filter is_discontinuity (manifest_lines scenario_manifest)) = 7 \<and>
   filtered_lines_of scenario_manifest =
     [''#EXTM3U'', ''#EXT-X-DISCONTINUITY'', ''1.ts'', ''2.ts'',
      ''#EXT-X-DISCONTINUITY'', ''5.ts'', ''6.ts'',
      ''#EXT-X-DISCONTINUITY'', ''9.ts'', ''10.ts'',
      ''#EXT-X-DISCONTINUITY'', ''#EXT-X-ENDLIST''] \<and>
   filter is_ts_line (filtered_lines_of scenario_manifest) =
     [''1.ts'', ''2.ts'', ''5.ts'', ''6.ts'', ''9.ts'', ''10.ts'']"
proof -
  have d: "is_discontinuity ''#EXT-X-DISCONTINUITY''" "\<not> is_ts_line ''#EXT-X-DISCONTINUITY''"
    by code_simp+
  have n: "\<not> is_discontinuity ''#EXTM3U''" "\<not> is_discontinuity ''#EXT-X-ENDLIST''"
    "\<not> is_discontinuity ''1.ts''" "\<not> is_discontinuity ''2.ts''" "\<not> is_discontinuity ''3.ts''"
    "\<not> is_discontinuity ''4.ts''" "\<not> is_discontinuity ''5.ts''" "\<not> is_discontinuity ''6.ts''"
    "\<not> is_discontinuity ''7.ts''" "\<not> is_discontinuity ''8.ts''" "\<not> is_discontinuity ''9.ts''"
    "\<not> is_discontinuity ''10.ts''"
    by code_simp+
  have t: "\<not> is_ts_line ''#EXTM3U''" "\<not> is_ts_line ''#EXT-X-ENDLIST''"
    "is_ts_line ''1.ts''" "is_ts_line ''2.ts''" "is_ts_line ''3.ts''"
    "is_ts_line ''4.ts''" "is_ts_line ''5.ts''" "is_ts_line ''6.ts''"
    "is_ts_line ''7.ts''" "is_ts_line ''8.ts''" "is_ts_line ''9.ts''"
    "is_ts_line ''10.ts''"
    by code_simp+
  have l: "manifest_lines scenario_manifest =
     [''#EXTM3U'', ''#EXT-X-DISCONTINUITY'', ''1.ts'', ''2.ts'',
      ''#EXT-X-DISCONTINUITY'', ''3.ts'', ''4.ts'',
      ''#EXT-X-DISCONTINUITY'', ''5.ts'', ''6.ts'',
      ''#EXT-X-DISCONTINUITY'', ''7.ts'', ''8.ts'',
      ''#EXT-X-DISCONTINUITY'', ''9.ts'', ''10.ts'',
      ''#EXT-X-DISCONTINUITY'', ''#EXT-X-DISCONTINUITY'', ''#EXT-X-ENDLIST'']"
    unfolding scenario_lines by (simp only: append.simps)
  have h: "manifest_lines scenario_manifest =
      [''#EXTM3U''] @ ''#EXT-X-DISCONTINUITY'' # [''1.ts'', ''2.ts''] @
      ''#EXT-X-DISCONTINUITY'' # [''3.ts'', ''4.ts''] @
      ''#EXT-X-DISCONTINUITY'' # [''5.ts'', ''6.ts''] @
      ''#EXT-X-DISCONTINUITY'' # [''7.ts'', ''8.ts''] @
      ''#EXT-X-DISCONTINUITY'' # [''9.ts'', ''10.ts''] @
      ''#EXT-X-DISCONTINUITY'' # [] @
      ''#EXT-X-DISCONTINUITY'' # [''#EXT-X-ENDLIST''] \<and>
    (\<forall>d\<in>set [''#EXT-X-DISCONTINUITY'', ''#EXT-X-DISCONTINUITY'', ''#EXT-X-DISCONTINUITY'',
       ''#EXT-X-DISCONTINUITY'', ''#EXT-X-DISCONTINUITY'', ''#EXT-X-DISCONTINUITY'',
       ''#EXT-X-DISCONTINUITY'']. is_discontinuity d \<and> \<not> is_ts_line d) \<and>
    (\<forall>l\<in>set ([''#EXTM3U''] @ [''1.ts'', ''2.ts''] @ [''3.ts'', ''4.ts''] @ [''5.ts'', ''6.ts''] @
        [''7.ts'', ''8.ts''] @ [''9.ts'', ''10.ts''] @ [] @ [''#EXT-X-ENDLIST'']).
        \<not> is_discontinuity l) \<and>
    filter is_ts_line ([''#EXTM3U''] @ [''1.ts'', ''2.ts'']) = [''1.ts'', ''2.ts''] \<and>
    filter is_ts_line [''3.ts'', ''4.ts''] = [''3.ts'', ''4.ts''] \<and>
    filter is_ts_line [''5.ts'', ''6.ts''] = [''5.ts'', ''6.ts''] \<and>
    filter is_ts_line [''7.ts'', ''8.ts''] = [''7.ts'', ''8.ts''] \<and>
    filter is_ts_line ([''9.ts'', ''10.ts''] @ [''#EXT-X-ENDLIST'']) = [''9.ts'', ''10.ts''] \<and>
    filter is_ts_line [] = []"
    apply (intro conjI ballI)
             apply (rule scenario_lines)
            apply (simp only: d list.set insert_iff empty_iff simp_thms)
           apply (simp only: d list.set insert_iff empty_iff simp_thms)
          apply (simp only: append.simps list.set insert_iff empty_iff)
          apply (elim disjE FalseE; simp only: n simp_thms)
         apply (simp_all only: append.simps filter.simps t if_True if_False)
    done
  note c = filter_ad_segments_parity_rule [of scenario_manifest
        "[''#EXTM3U'']" "''#EXT-X-DISCONTINUITY''" "[''1.ts'', ''2.ts'']"
        "''#EXT-X-DISCONTINUITY''" "[''3.ts'', ''4.ts'']"
        "''#EXT-X-DISCONTINUITY''" "[''5.ts'', ''6.ts'']"
        "''#EXT-X-DISCONTINUITY''" "[''7.ts'', ''8.ts'']"
        "''#EXT-X-DISCONTINUITY''" "[''9.ts'', ''10.ts'']"
        "''#EXT-X-DISCONTINUITY''" "[]"
        "''#EXT-X-DISCONTINUITY''" "[''#EXT-X-ENDLIST'']"
        "''1.ts''" "''2.ts''" "''3.ts''" "''4.ts''" "''5.ts''" "''6.ts''" "''7.ts''" "''8.ts''"
        "''9.ts''" "''10.ts''", THEN conjunct2, THEN mp, OF h]
  have seven: "length (filter is_discontinuity (manifest_lines scenario_manifest)) = 7"
    unfolding l by (simp only: filter.simps d n if_True if_False) simp
  show ?thesis
    apply (intro conjI)
       apply (rule c [THEN conjunct2, THEN conjunct1])
      apply (rule seven)
     apply (simp only: c [THEN conjunct1] append.simps)
    apply (rule c [THEN conjunct2, THEN conjunct2])
    done
qed

lemma filtered_lines_le1:
  "length (filter is_discontinuity (manifest_lines m)) \<le> 1 \<Longrightarrow>
   filtered_lines_of m = manifest_lines m"
  using spec_walk_le1 [of "manifest_lines m" 0] by (simp add: filtered_lines_spec)

lemma filter_ad_segments_le1:
  "length (filter is_discontinuity (manifest_lines m)) \<le> 1 \<Longrightarrow> filter_ad_segments m = strip m"
  by (simp add: filter_ad_segments_def filtered_lines_le1 join_manifest_lines)

text \<open>
  Claim C5, as amended. For every manifest whose trimmed lines hold exactly one
  discontinuity marker, the filter keeps every line, and its output is the input with
  the surrounding whitespace trimmed.
\<close>
theorem filter_one_marker_keeps_trimmed_manifest:
  "length (filter is_discontinuity (manifest_lines m)) = 1 \<Longrightarrow>
   filtered_lines_of m = manifest_lines m \<and> filter_ad_segments m = strip m"
  by (simp add: filtered_lines_le1 filter_ad_segments_le1)

lemma one_marker_lines:
  "manifest_lines one_marker_manifest = [''#EXTM3U'', ''#EXT-X-DISCONTINUITY'', ''a.ts'']"
  by (simp add: one_marker_manifest_def manifest_lines_def strip_def lstrip_def py_isspace_def)

lemma one_marker_count:
  "length (filter is_discontinuity (manifest_lines one_marker_manifest)) = 1"
  by (simp add: one_marker_lines is_discontinuity_def DISCONTINUITY_def startswith_def)

theorem filter_one_marker_keeps_trimmed_manifest_witness:
  "length (filter is_discontinuity (manifest_lines one_marker_manifest)) = 1 \<and>
   filtered_lines_of one_marker_manifest = [''#EXTM3U'', ''#EXT-X-DISCONTINUITY'', ''a.ts''] \<and>
   filter_ad_segments one_marker_manifest = strip one_marker_manifest"
  using filter_one_marker_keeps_trimmed_manifest [OF one_marker_count] one_marker_count
  by (simp only: one_marker_lines simp_thms)

lemma one_marker_strip:
  "strip one_marker_manifest = join_with CHR 0x0A [''#EXTM3U'', ''#EXT-X-DISCONTINUITY'', ''a.ts'']"
  by (simp add: one_marker_manifest_def strip_def lstrip_def py_isspace_def)

text \<open>
  A manifest with one marker and a final newline: the output differs from the input.
\<close>
theorem filter_one_marker_not_identity:
  "length (filter is_discontinuity (manifest_lines one_marker_manifest)) = 1 \<and>
   filter_ad_segments one_marker_manifest \<noteq> one_marker_manifest"
proof -
  have "filter_ad_segments one_marker_manifest = strip one_marker_manifest"
    by (rule filter_ad_segments_le1) (simp add: one_marker_count)
  then show ?thesis
    by (simp add: one_marker_count one_marker_strip) (simp add: one_marker_manifest_def)
qed

text \<open>
  Claim C9, as amended. For every manifest, the lines of the filter's output are a
  subsequence of the trimmed input's lines, never longer than it, and strictly shorter
  exactly when the manifest has at least two discontinuity markers.
\<close>
theorem filtered_lines_subsequence:
  "subseq (filtered_lines_of m) (manifest_lines m) \<and>
   split_on CHR 0x0A (filter_ad_segments m) = filtered_lines_of m \<and>
   length (filtered_lines_of m) \<le> length (manifest_lines m) \<and>
   (length (filtered_lines_of m) < length (manifest_lines m)) =
     (2 \<le> length (filter is_discontinuity (manifest_lines m)))"
proof (intro conjI)
  show "subseq (filtered_lines_of m) (manifest_lines m)"
    by (simp add: filtered_lines_spec spec_walk_subseq)
  show "split_on CHR 0x0A (filter_ad_segments m) = filtered_lines_of m"
    by (rule split_filtered)
  show "length (filtered_lines_of m) \<le> length (manifest_lines m)"
    by (simp add: filtered_lines_spec spec_walk_length)
  show "(length (filtered_lines_of m) < length (manifest_lines m)) =
     (2 \<le> length (filter is_discontinuity (manifest_lines m)))"
  proof (cases "2 \<le> length (filter is_discontinuity (manifest_lines m))")
    case True
    then show ?thesis
      using spec_walk_shorter [of 0 "manifest_lines m" False] by (simp add: filtered_lines_spec)
  next
    case False
    then show ?thesis
      using spec_walk_le1 [of "manifest_lines m" 0] by (simp add: filtered_lines_spec)
  qed
qed

text \<open>A manifest of one segment line: the output has as many lines as the input.\<close>
theorem filtered_lines_not_strictly_shorter:
  "\<not> length (filtered_lines_of ''a.ts'') < length (manifest_lines ''a.ts'')"
  by (simp add: filtered_lines_of_def manifest_lines_def strip_def lstrip_def py_isspace_def
      is_discontinuity_def DISCONTINUITY_def startswith_def)


lemma rsplit1_head_none: "sep \<notin> set s \<Longrightarrow> rsplit1_head sep s = s"
  by (induction s) auto

lemma rsplit1_head_last: "sep \<notin> set ext \<Longrightarrow> rsplit1_head sep (stem @ sep # ext) = stem"
  by (induction stem) auto

lemma endswith_append: "endswith (s @ p) p"
  by (simp add: endswith_def)

text \<open>
  Claim C7. For every output name, the normalised name ends with \<open>.mp4\<close>; a name that
  already ends with \<open>.mp4\<close> is unchanged; otherwise the part after the last dot is
  stripped, or nothing when the name has no dot, and \<open>.mp4\<close> is appended. The names
  \<open>video\<close>, \<open>video.mkv\<close> and \<open>video.mp4\<close> all become \<open>video.mp4\<close>.
\<close>
theorem normalize_output_filename_mp4:
  "endswith (normalize_output_filename n) ''.mp4'' \<and>
   (endswith n ''.mp4'' \<longrightarrow> normalize_output_filename n = n) \<and>
   (\<not> endswith n ''.mp4'' \<and> CHR ''.'' \<notin> set n \<longrightarrow> normalize_output_filename n = n @ ''.mp4'') \<and>
   (\<not> endswith n ''.mp4'' \<and> n = stem @ ''.'' @ ext \<and> CHR ''.'' \<notin> set ext \<longrightarrow>
      normalize_output_filename n = stem @ ''.mp4'') \<and>
   normalize_output_filename ''video'' = ''video.mp4'' \<and>
   normalize_output_filename ''video.mkv'' = ''video.mp4'' \<and>
   normalize_output_filename ''video.mp4'' = ''video.mp4''"
proof (intro conjI impI)
  show "endswith (normalize_output_filename n) ''.mp4''"
    using endswith_append [of "rsplit1_head CHR ''.'' n" "''.mp4''"]
    by (simp add: normalize_output_filename_def)
  show "normalize_output_filename n = n" if "endswith n ''.mp4''"
    using that by (simp add: normalize_output_filename_def)
  show "normalize_output_filename n = n @ ''.mp4''" if "\<not> endswith n ''.mp4'' \<and> CHR ''.'' \<notin> set n"
    using that by (simp add: normalize_output_filename_def rsplit1_head_none)
  show "normalize_output_filename n = stem @ ''.mp4''"
    if "\<not> endswith n ''.mp4'' \<and> n = stem @ ''.'' @ ext \<and> CHR ''.'' \<notin> set ext"
  proof -
    from that have ne: "\<not> endswith n ''.mp4''" and n: "n = stem @ CHR ''.'' # ext"
      and e: "CHR ''.'' \<notin> set ext"
      by auto
    have "normalize_output_filename n = rsplit1_head CHR ''.'' n @ ''.mp4''"
      using ne by (simp add: normalize_output_filename_def)
    also have "rsplit1_head CHR ''.'' n = stem"
      unfolding n by (rule rsplit1_head_last [OF e])
    finally show ?thesis .
  qed
  show "normalize_output_filename ''video'' = ''video.mp4''"
    by (simp add: normalize_output_filename_def endswith_def)
  show "normalize_output_filename ''video.mkv'' = ''video.mp4''"
    by (simp add: normalize_output_filename_def endswith_def)
  show "normalize_output_filename ''video.mp4'' = ''video.mp4''"
    by (simp add: normalize_output_filename_def endswith_def)
qed

theorem normalize_output_filename_mp4_witness:
  "endswith ''a.b.mp4'' ''.mp4'' \<and> normalize_output_filename ''a.b.mp4'' = ''a.b.mp4'' \<and>
   \<not> endswith ''clip'' ''.mp4'' \<and> CHR ''.'' \<notin> set ''clip'' \<and>
   normalize_output_filename ''clip'' = ''clip.mp4'' \<and>
   \<not> endswith ''a.b.mkv'' ''.mp4'' \<and> CHR ''.'' \<notin> set ''mkv'' \<and>
   normalize_output_filename ''a.b.mkv'' = ''a.b.mp4''"
  using normalize_output_filename_mp4 [of "''a.b.mp4''"]
    normalize_output_filename_mp4 [of "''clip''"]
    normalize_output_filename_mp4 [of "''a.b.mkv''" "''a.b''" "''mkv''"]
  by (simp add: endswith_def)


section \<open>Properties of the assembler, the state store and the fetchers\<close>

lemma concatenate_loop_ok:
  "map fs ts_files = map Some contents \<Longrightarrow> out \<notin> set ts_files \<Longrightarrow> fs out = Some written \<Longrightarrow>
   concatenate_loop ts_files out fs = (Inr (), fs(out \<mapsto> written @ concat contents))"
proof (induction ts_files arbitrary: fs contents written)
  case Nil
  then show ?case by (simp add: fun_upd_idem)
next
  case (Cons f fs')
  then obtain c cs where c: "contents = c # cs" by (cases contents) auto
  with Cons.prems have f: "fs f = Some c" and r: "map fs fs' = map Some cs"
    and o: "out \<noteq> f" "out \<notin> set fs'"
    by auto
  have m: "map (fs(out \<mapsto> written @ c)) fs' = map Some cs"
    using r o by (auto simp: map_eq_conv)
  have "concatenate_loop (f # fs') out fs = concatenate_loop fs' out (fs(out \<mapsto> written @ c))"
    using f Cons.prems(3) by simp
  also have "\<dots> = (Inr (), (fs(out \<mapsto> written @ c))(out \<mapsto> (written @ c) @ concat cs))"
    by (rule Cons.IH [OF m o(2)]) simp
  also have "\<dots> = (Inr (), fs(out \<mapsto> written @ concat contents))"
    by (simp add: c)
  finally show ?case .
qed

text \<open>
  Claim C6. For every list of input files that all exist, with the destination not
  among them, \<open>concatenate_videos\<close> succeeds and leaves in the destination exactly
  the concatenation of the inputs' contents in list order, every other file unchanged.
  An empty input adds nothing: inputs of 10, 0 and 7 bytes give the 17 bytes of the
  first followed by the third.
\<close>
theorem concatenate_videos_exact:
  "(map fs ts_files = map Some contents \<and> output_filename \<notin> set ts_files \<longrightarrow>
      concatenate_videos ts_files output_filename fs =
        (Inr (), fs(output_filename \<mapsto> concat contents))) \<and>
   (map fs [f1, f2, f3] = [Some c1, Some c2, Some c3] \<and> output_filename \<notin> set [f1, f2, f3] \<and>
    length c1 = 10 \<and> length c2 = 0 \<and> length c3 = 7 \<longrightarrow>
      (\<exists>out. snd (concatenate_videos [f1, f2, f3] output_filename fs) output_filename = Some out \<and>
             out = c1 @ c3 \<and> length out = 17))"
proof (intro conjI impI)
  assume h: "map fs ts_files = map Some contents \<and> output_filename \<notin> set ts_files"
  then show "concatenate_videos ts_files output_filename fs =
        (Inr (), fs(output_filename \<mapsto> concat contents))"
    unfolding concatenate_videos_def
    using concatenate_loop_ok [of "fs(output_filename \<mapsto> [])" ts_files contents output_filename "[]"]
    by (auto simp: map_eq_conv)
next
  assume h: "map fs [f1, f2, f3] = [Some c1, Some c2, Some c3] \<and> output_filename \<notin> set [f1, f2, f3] \<and>
    length c1 = 10 \<and> length c2 = 0 \<and> length c3 = 7"
  then have m: "map (fs(output_filename \<mapsto> [])) [f1, f2, f3] = map Some [c1, c2, c3]"
    by auto
  have "concatenate_videos [f1, f2, f3] output_filename fs =
        (Inr (), fs(output_filename \<mapsto> concat [c1, c2, c3]))"
    unfolding concatenate_videos_def
    using concatenate_loop_ok [OF m, of output_filename "[]"] h by simp
  with h show "\<exists>out. snd (concatenate_videos [f1, f2, f3] output_filename fs) output_filename = Some out \<and>
             out = c1 @ c3 \<and> length out = 17"
    by simp
qed

theorem concatenate_videos_exact_witness:
  "concatenate_videos [''a.ts'', ''b.ts'', ''c.ts''] ''temp_concatenated.ts'' three_files =
     (Inr (), three_files(''temp_concatenated.ts'' \<mapsto> ''0123456789abcdefg'')) \<and>
   length ''0123456789'' = 10 \<and> length ''abcdefg'' = 7 \<and> length ''0123456789abcdefg'' = 17"
  using concatenate_videos_exact [of three_files "[''a.ts'', ''b.ts'', ''c.ts'']"
      "[''0123456789'', [], ''abcdefg'']" "''temp_concatenated.ts''"
      "''a.ts''" "''b.ts''" "''c.ts''" "''0123456789''" "[]" "''abcdefg''"]
  by (simp add: three_files_def)

text \<open>
  Claim C3, as amended. Loading the download state returns the default state (no
  completed segment, total 0) when the record is absent, and the persisted state when
  the record exists and parses; when the record exists and does not parse, the decode
  error is raised to the caller.
\<close>
theorem load_download_state_cases:
  "(fs (get_download_state_filename L m3u8_url) = None \<longrightarrow>
      load_download_state L m3u8_url fs = Inr default_state) \<and>
   (fs (get_download_state_filename L m3u8_url) = Some text \<and> json_load L text = Some state \<longrightarrow>
      load_download_state L m3u8_url fs = Inr state) \<and>
   (fs (get_download_state_filename L m3u8_url) = Some text \<and> json_load L text = None \<longrightarrow>
      load_download_state L m3u8_url fs = Inl JSONDecodeError)"
  by (simp add: load_download_state_def)

text \<open>
  A record that does not parse: loading raises instead of returning the default.
\<close>
theorem load_download_state_corrupt_raises:
  "corrupt_store (get_download_state_filename toy_lib ''http://h/v.m3u8'') = Some ''{\"downloaded'' \<and>
   load_download_state toy_lib ''http://h/v.m3u8'' corrupt_store = Inl JSONDecodeError"
  by (simp add: corrupt_store_def load_download_state_def toy_lib_def toy_load_def)

lemma to_fetch_Cons:
  "to_fetch C (p # ps) = (if snd p \<in> C then to_fetch C ps else p # to_fetch C ps)"
  by (simp add: to_fetch_def)

lemma to_fetch_Nil: "to_fetch C [] = []"
  by (simp add: to_fetch_def)

lemma to_fetch_append: "to_fetch C (xs @ ys) = to_fetch C xs @ to_fetch C ys"
  by (simp add: to_fetch_def)

lemma record_segment_set:
  "set (downloaded_segments (record_segment f st)) = insert f (set (downloaded_segments st))"
  by (auto simp: record_segment_def Let_def)

lemma fold_record_segment_set:
  "set (downloaded_segments (fold record_segment names st)) =
     set (downloaded_segments st) \<union> set names"
  by (induction names arbitrary: st) (auto simp: record_segment_set)

lemma fold_record_segment_total:
  "total_segments (fold record_segment names st) = total_segments st"
  by (induction names arbitrary: st) (auto simp: record_segment_def Let_def)

lemma save_state_file:
  "save_download_state L url st fs (get_download_state_filename L url) = Some (json_dump L st)"
  by (simp add: save_download_state_def)

lemma resume_loop_success:
  "resume_loop L b C url lines w ts st = (Inr (ts', st'), w') \<Longrightarrow>
   ts' = ts @ map snd (segment_plan L b (length ts) lines) \<and>
   requests w' = requests w @ map fst (to_fetch C (segment_plan L b (length ts) lines)) \<and>
   (\<forall>i<length (to_fetch C (segment_plan L b (length ts) lines)).
      \<exists>c. http_get L (length (requests w) + i)
             (fst (to_fetch C (segment_plan L b (length ts) lines) ! i)) = Inr c)"
proof (induction lines arbitrary: w ts st)
  case Nil
  then show ?case by (simp add: to_fetch_Nil)
next
  case (Cons line lines)
  show ?case
  proof (cases "is_ts_line line")
    case False
    with Cons show ?thesis by simp
  next
    case True
    define u where "u = urljoin L b line"
    define f where "f = segment_filename L u (length ts)"
    have plan: "segment_plan L b (length ts) (line # lines) =
                  (u, f) # segment_plan L b (length (ts @ [f])) lines"
      using True by (simp add: u_def f_def)
    show ?thesis
    proof (cases "f \<in> C")
      case True
      with \<open>is_ts_line line\<close> Cons.prems
      have "resume_loop L b C url lines w (ts @ [f]) st = (Inr (ts', st'), w')"
        by (simp add: u_def f_def Let_def)
      from Cons.IH [OF this] True show ?thesis
        unfolding plan by (simp add: to_fetch_Cons)
    next
      case False
      with \<open>is_ts_line line\<close> Cons.prems
      obtain c where c: "http_get L (length (requests w)) u = Inr c"
        by (cases "http_get L (length (requests w)) u") (auto simp: u_def f_def Let_def)
      define w3 where "w3 = w\<lparr>requests := requests w @ [u],
          files := save_download_state L url (record_segment f st) ((files w)(f \<mapsto> c))\<rparr>"
      from False \<open>is_ts_line line\<close> Cons.prems c
      have "resume_loop L b C url lines w3 (ts @ [f]) (record_segment f st) = (Inr (ts', st'), w')"
        by (simp add: u_def f_def Let_def w3_def)
      from Cons.IH [OF this] have
        1: "ts' = (ts @ [f]) @ map snd (segment_plan L b (length (ts @ [f])) lines)" and
        2: "requests w' = requests w3 @
              map fst (to_fetch C (segment_plan L b (length (ts @ [f])) lines))" and
        3: "\<forall>i<length (to_fetch C (segment_plan L b (length (ts @ [f])) lines)).
              \<exists>c. http_get L (length (requests w3) + i)
                (fst (to_fetch C (segment_plan L b (length (ts @ [f])) lines) ! i)) = Inr c"
        by blast+
      have r3: "requests w3 = requests w @ [u]" by (simp add: w3_def)
      have "\<exists>c. http_get L (length (requests w) + i)
             (fst (((u, f) # to_fetch C (segment_plan L b (length (ts @ [f])) lines)) ! i)) = Inr c"
        if "i < Suc (length (to_fetch C (segment_plan L b (length (ts @ [f])) lines)))" for i
      proof (cases i)
        case 0
        then show ?thesis using c by simp
      next
        case (Suc j)
        with that 3 [rule_format, of j] show ?thesis by (simp add: r3)
      qed
      with 1 2 False show ?thesis
        unfolding plan by (simp add: to_fetch_Cons r3)
    qed
  qed
qed

lemma resume_loop_requests:
  "resume_loop L b C url lines w ts st = (r, w') \<Longrightarrow>
   \<exists>k. requests w' = requests w @ take k (map fst (to_fetch C (segment_plan L b (length ts) lines))) \<and>
       (to_fetch C (segment_plan L b (length ts) lines) \<noteq> [] \<longrightarrow> 0 < k)"
proof (induction lines arbitrary: w ts st)
  case Nil
  then show ?case by (simp add: to_fetch_Nil)
next
  case (Cons line lines)
  show ?case
  proof (cases "is_ts_line line")
    case False
    with Cons show ?thesis by simp
  next
    case True
    define u where "u = urljoin L b line"
    define f where "f = segment_filename L u (length ts)"
    have plan: "segment_plan L b (length ts) (line # lines) =
                  (u, f) # segment_plan L b (length (ts @ [f])) lines"
      using True by (simp add: u_def f_def)
    show ?thesis
    proof (cases "f \<in> C")
      case True
      with \<open>is_ts_line line\<close> Cons.prems
      have "resume_loop L b C url lines w (ts @ [f]) st = (r, w')"
        by (simp add: u_def f_def Let_def)
      from Cons.IH [OF this] True show ?thesis
        unfolding plan by (simp add: to_fetch_Cons)
    next
      case False
      show ?thesis
      proof (cases "http_get L (length (requests w)) u")
        case (Inl e)
        with False \<open>is_ts_line line\<close> Cons.prems
        have "requests w' = requests w @ [u]"
          by (auto simp: u_def f_def Let_def)
        then have "requests w' = requests w @ take 1 (map fst
            (to_fetch C (segment_plan L b (length ts) (line # lines)))) \<and> (0::nat) < 1"
          unfolding plan using False by (simp add: to_fetch_Cons)
        then show ?thesis by blast
      next
        case (Inr c)
        define w3 where "w3 = w\<lparr>requests := requests w @ [u],
          files := save_download_state L url (record_segment f st) ((files w)(f \<mapsto> c))\<rparr>"
        from False \<open>is_ts_line line\<close> Cons.prems Inr
        have "resume_loop L b C url lines w3 (ts @ [f]) (record_segment f st) = (r, w')"
          by (simp add: u_def f_def Let_def w3_def)
        from Cons.IH [OF this] obtain k where
          k: "requests w' = requests w3 @
               take k (map fst (to_fetch C (segment_plan L b (length (ts @ [f])) lines)))"
          by blast
        have r3: "requests w3 = requests w @ [u]" by (simp add: w3_def)
        have "requests w' = requests w @ take (Suc k) (map fst
            (to_fetch C (segment_plan L b (length ts) (line # lines)))) \<and> 0 < Suc k"
          unfolding plan using False k by (simp add: to_fetch_Cons r3)
        then show ?thesis by blast
      qed
    qed
  qed
qed

lemma resume_loop_total:
  "\<forall>n u. \<exists>c. http_get L n u = Inr c \<Longrightarrow>
   \<exists>ts' st' w'. resume_loop L b C url lines w ts st = (Inr (ts', st'), w')"
proof (induction lines arbitrary: w ts st)
  case Nil
  then show ?case by simp
next
  case (Cons line lines)
  obtain c where "http_get L (length (requests w)) (urljoin L b line) = Inr c"
    using Cons.prems by blast
  then show ?case
    using Cons.IH [OF Cons.prems] by (simp add: Let_def)
qed

lemma resume_loop_failure:
  "segment_plan L b (length ts) lines = pre @ (u, f) # post \<Longrightarrow> f \<notin> C \<Longrightarrow>
   \<forall>i<length (to_fetch C pre).
      \<exists>c. http_get L (length (requests w) + i) (fst (to_fetch C pre ! i)) = Inr c \<Longrightarrow>
   http_get L (length (requests w) + length (to_fetch C pre)) u = Inl e \<Longrightarrow>
   files w (get_download_state_filename L url) = Some (json_dump L st) \<Longrightarrow>
   \<exists>w'. resume_loop L b C url lines w ts st = (Inl e, w') \<and>
        requests w' = requests w @ map fst (to_fetch C pre) @ [u] \<and>
        files w' (get_download_state_filename L url) =
          Some (json_dump L (fold record_segment (map snd (to_fetch C pre)) st))"
proof (induction lines arbitrary: w ts st pre)
  case Nil
  then show ?case by simp
next
  case (Cons line lines)
  show ?case
  proof (cases "is_ts_line line")
    case False
    with Cons.prems have "segment_plan L b (length ts) lines = pre @ (u, f) # post"
      by simp
    from Cons.IH [OF this Cons.prems(2-5)] False show ?thesis by simp
  next
    case True
    define u0 where "u0 = urljoin L b line"
    define f0 where "f0 = segment_filename L u0 (length ts)"
    have plan: "(u0, f0) # segment_plan L b (length (ts @ [f0])) lines = pre @ (u, f) # post"
      using True Cons.prems(1) by (simp add: u0_def f0_def)
    show ?thesis
    proof (cases pre)
      case Nil
      with plan have e: "u0 = u" "f0 = f" by simp_all
      with Nil Cons.prems True show ?thesis
        by (simp add: u0_def f0_def Let_def to_fetch_Nil)
    next
      case (Cons p pre')
      with plan have p: "p = (u0, f0)"
        and rest: "segment_plan L b (length (ts @ [f0])) lines = pre' @ (u, f) # post"
        by simp_all
      show ?thesis
      proof (cases "f0 \<in> C")
        case True
        then have tf: "to_fetch C pre = to_fetch C pre'"
          by (simp add: Cons p to_fetch_Cons)
        from True \<open>is_ts_line line\<close>
        have step: "resume_loop L b C url (line # lines) w ts st =
                    resume_loop L b C url lines w (ts @ [f0]) st"
          by (simp add: u0_def f0_def Let_def)
        from Cons.IH [OF rest Cons.prems(2) Cons.prems(3) [unfolded tf] Cons.prems(4) [unfolded tf]
            Cons.prems(5)]
        show ?thesis unfolding step tf .
      next
        case False
        then have tf: "to_fetch C pre = (u0, f0) # to_fetch C pre'"
          by (simp add: Cons p to_fetch_Cons)
        from Cons.prems(3) [rule_format, of 0] obtain c where
          c: "http_get L (length (requests w)) u0 = Inr c"
          by (auto simp: tf)
        define st1 where "st1 = record_segment f0 st"
        define w3 where "w3 = w\<lparr>requests := requests w @ [u0],
          files := save_download_state L url st1 ((files w)(f0 \<mapsto> c))\<rparr>"
        from False \<open>is_ts_line line\<close> c
        have step: "resume_loop L b C url (line # lines) w ts st =
                    resume_loop L b C url lines w3 (ts @ [f0]) st1"
          by (simp add: u0_def f0_def Let_def w3_def st1_def)
        have r3: "requests w3 = requests w @ [u0]" by (simp add: w3_def)
        have g: "\<forall>i<length (to_fetch C pre').
            \<exists>c. http_get L (length (requests w3) + i) (fst (to_fetch C pre' ! i)) = Inr c"
        proof (intro allI impI)
          fix i assume "i < length (to_fetch C pre')"
          with Cons.prems(3) [rule_format, of "Suc i"] show
            "\<exists>c. http_get L (length (requests w3) + i) (fst (to_fetch C pre' ! i)) = Inr c"
            by (simp add: tf r3)
        qed
        have h: "http_get L (length (requests w3) + length (to_fetch C pre')) u = Inl e"
          using Cons.prems(4) by (simp add: tf r3)
        have s: "files w3 (get_download_state_filename L url) = Some (json_dump L st1)"
          by (simp add: w3_def save_state_file)
        from Cons.IH [OF rest Cons.prems(2) g h s]
        show ?thesis unfolding step by (simp add: tf r3 st1_def)
      qed
    qed
  qed
qed

lemma download_loop_success:
  "download_loop L b lines w ts = (Inr ts', w') \<Longrightarrow>
   ts' = ts @ map snd (segment_plan L b (length ts) lines)"
proof (induction lines arbitrary: w ts)
  case Nil
  then show ?case by simp
next
  case (Cons line lines)
  show ?case
  proof (cases "is_ts_line line")
    case False
    with Cons show ?thesis by simp
  next
    case True
    with Cons.prems obtain c where
      c: "http_get L (length (requests w)) (urljoin L b line) = Inr c"
      by (cases "http_get L (length (requests w)) (urljoin L b line)") (auto simp: Let_def)
    define f where "f = segment_filename L (urljoin L b line) (length ts)"
    from True Cons.prems c have
      "download_loop L b lines
         (w\<lparr>requests := requests w @ [urljoin L b line],
            files := (files w)(f \<mapsto> c)\<rparr>) (ts @ [f]) = (Inr ts', w')"
      by (simp add: Let_def f_def)
    from Cons.IH [OF this] True show ?thesis
      by (simp add: f_def)
  qed
qed

lemma segment_plan_length:
  "length (segment_plan L b k lines) = length (filter is_ts_line lines)"
  by (induction lines arbitrary: k) auto

lemma segment_plan_nth:
  "i < length (filter is_ts_line lines) \<Longrightarrow>
   segment_plan L b k lines ! i =
     (urljoin L b (filter is_ts_line lines ! i),
      segment_filename L (urljoin L b (filter is_ts_line lines ! i)) (k + i))"
proof (induction lines arbitrary: k i)
  case Nil
  then show ?case by simp
next
  case (Cons line lines)
  show ?case
  proof (cases "is_ts_line line")
    case False
    with Cons show ?thesis by simp
  next
    case True
    show ?thesis
    proof (cases i)
      case 0
      with True show ?thesis by simp
    next
      case (Suc j)
      with True Cons.prems have "j < length (filter is_ts_line lines)" by simp
      from Cons.IH [OF this, of "Suc k"] True Suc show ?thesis by simp
    qed
  qed
qed

lemma resume_loop_ok:
  "\<forall>i<length (to_fetch C (segment_plan L b (length ts) lines)).
      \<exists>c. http_get L (length (requests w) + i)
             (fst (to_fetch C (segment_plan L b (length ts) lines) ! i)) = Inr c \<Longrightarrow>
   \<exists>ts' st' w'. resume_loop L b C url lines w ts st = (Inr (ts', st'), w')"
proof (induction lines arbitrary: w ts st)
  case Nil
  then show ?case by simp
next
  case (Cons line lines)
  show ?case
  proof (cases "is_ts_line line")
    case False
    with Cons show ?thesis by simp
  next
    case True
    define u where "u = urljoin L b line"
    define f where "f = segment_filename L u (length ts)"
    have plan: "segment_plan L b (length ts) (line # lines) =
                  (u, f) # segment_plan L b (length (ts @ [f])) lines"
      using True by (simp add: u_def f_def)
    show ?thesis
    proof (cases "f \<in> C")
      case True
      then have "\<forall>i<length (to_fetch C (segment_plan L b (length (ts @ [f])) lines)).
        \<exists>c. http_get L (length (requests w) + i)
             (fst (to_fetch C (segment_plan L b (length (ts @ [f])) lines) ! i)) = Inr c"
        using Cons.prems unfolding plan by (simp add: to_fetch_Cons)
      from Cons.IH [OF this] True \<open>is_ts_line line\<close> show ?thesis
        by (simp add: u_def f_def Let_def)
    next
      case False
      then have tf: "to_fetch C (segment_plan L b (length ts) (line # lines)) =
          (u, f) # to_fetch C (segment_plan L b (length (ts @ [f])) lines)"
        unfolding plan by (simp add: to_fetch_Cons)
      from Cons.prems [rule_format, of 0] obtain c where
        c: "http_get L (length (requests w)) u = Inr c"
        unfolding tf by auto
      define st1 where "st1 = record_segment f st"
      define w3 where "w3 = w\<lparr>requests := requests w @ [u],
          files := save_download_state L url st1 ((files w)(f \<mapsto> c))\<rparr>"
      have r3: "requests w3 = requests w @ [u]" by (simp add: w3_def)
      have "\<forall>i<length (to_fetch C (segment_plan L b (length (ts @ [f])) lines)).
        \<exists>c. http_get L (length (requests w3) + i)
             (fst (to_fetch C (segment_plan L b (length (ts @ [f])) lines) ! i)) = Inr c"
      proof (intro allI impI)
        fix i assume "i < length (to_fetch C (segment_plan L b (length (ts @ [f])) lines))"
        with Cons.prems [rule_format, of "Suc i"] show
          "\<exists>c. http_get L (length (requests w3) + i)
             (fst (to_fetch C (segment_plan L b (length (ts @ [f])) lines) ! i)) = Inr c"
          unfolding tf by (simp add: r3)
      qed
      from Cons.IH [OF this, of st1] False \<open>is_ts_line line\<close> c show ?thesis
        by (simp add: u_def f_def Let_def w3_def st1_def)
    qed
  qed
qed

lemma to_fetch_all_completed: "snd ` set ps \<subseteq> C \<Longrightarrow> to_fetch C ps = []"
  by (induction ps) (auto simp: to_fetch_def)

lemma names_completed_or_fetched:
  "snd ` set ps \<subseteq> C \<union> snd ` set (to_fetch C ps)"
  by (auto simp: to_fetch_def)

lemma resume_run_cases:
  "load_download_state L url (files w) = Inr st0 \<Longrightarrow>
   download_ts_segments_with_resume L content b C url w =
     (case resume_loop L b C url (manifest_lines content)
             (w\<lparr>files := save_download_state L url
                 (st0\<lparr>total_segments := int (length (filter is_ts_line (manifest_lines content)))\<rparr>)
                 (files w)\<rparr>) []
             (st0\<lparr>total_segments := int (length (filter is_ts_line (manifest_lines content)))\<rparr>) of
        (Inl e, w') \<Rightarrow> (Inl e, w')
      | (Inr (ts_files, _), w') \<Rightarrow> (Inr ts_files, w'))"
  by (simp add: download_ts_segments_with_resume_def Let_def)

lemma resume_run_load_error:
  "load_download_state L url (files w) = Inl e \<Longrightarrow>
   download_ts_segments_with_resume L content b C url w = (Inl e, w)"
  by (simp add: download_ts_segments_with_resume_def Let_def)

lemma resume_run_requests:
  "\<exists>k. requests (snd (download_ts_segments_with_resume L content b C url w)) =
        requests w @ take k (map fst (to_fetch C (segment_plan L b 0 (manifest_lines content)))) \<and>
       ((\<exists>st0. load_download_state L url (files w) = Inr st0) \<and>
        to_fetch C (segment_plan L b 0 (manifest_lines content)) \<noteq> [] \<longrightarrow> 0 < k)"
proof (cases "load_download_state L url (files w)")
  case (Inl e)
  then have "requests (snd (download_ts_segments_with_resume L content b C url w)) =
        requests w @ take 0 (map fst (to_fetch C (segment_plan L b 0 (manifest_lines content))))"
    by (simp add: resume_run_load_error)
  with Inl show ?thesis by auto
next
  case (Inr st0)
  define st1 where
    "st1 = st0\<lparr>total_segments := int (length (filter is_ts_line (manifest_lines content)))\<rparr>"
  define w0 where "w0 = w\<lparr>files := save_download_state L url st1 (files w)\<rparr>"
  obtain r w' where run: "resume_loop L b C url (manifest_lines content) w0 [] st1 = (r, w')"
    by (cases "resume_loop L b C url (manifest_lines content) w0 [] st1") auto
  from resume_loop_requests [OF run] obtain k where
    k: "requests w' = requests w0 @
          take k (map fst (to_fetch C (segment_plan L b 0 (manifest_lines content))))"
       "to_fetch C (segment_plan L b 0 (manifest_lines content)) \<noteq> [] \<longrightarrow> 0 < k"
    by auto
  have "snd (download_ts_segments_with_resume L content b C url w) = w'"
    using run by (simp add: resume_run_cases [OF Inr] st1_def [symmetric] w0_def [symmetric]
        split: sum.splits prod.splits)
  with k show ?thesis by (auto simp: w0_def)
qed

lemma resume_run_success:
  assumes "fst (download_ts_segments_with_resume L content b C url w) = Inr ts"
  shows "ts = map snd (segment_plan L b 0 (manifest_lines content)) \<and>
         requests (snd (download_ts_segments_with_resume L content b C url w)) =
           requests w @ map fst (to_fetch C (segment_plan L b 0 (manifest_lines content)))"
proof (cases "load_download_state L url (files w)")
  case (Inl e)
  with assms show ?thesis by (simp add: resume_run_load_error)
next
  case (Inr st0)
  define st1 where
    "st1 = st0\<lparr>total_segments := int (length (filter is_ts_line (manifest_lines content)))\<rparr>"
  define w0 where "w0 = w\<lparr>files := save_download_state L url st1 (files w)\<rparr>"
  obtain r w' where run: "resume_loop L b C url (manifest_lines content) w0 [] st1 = (r, w')"
    by (cases "resume_loop L b C url (manifest_lines content) w0 [] st1") auto
  have top: "download_ts_segments_with_resume L content b C url w =
        (case r of Inl e \<Rightarrow> (Inl e, w') | Inr (ts_files, _) \<Rightarrow> (Inr ts_files, w'))"
    using run by (simp add: resume_run_cases [OF Inr] st1_def [symmetric] w0_def [symmetric]
        split: sum.splits prod.splits)
  with assms obtain st' where r: "r = Inr (ts, st')"
    by (cases r) (auto split: prod.splits)
  from resume_loop_success [OF run [unfolded r]] top r show ?thesis
    by (simp add: w0_def)
qed

lemma resume_run_ok:
  assumes "load_download_state L url (files w) = Inr st0"
    and "\<forall>i<length (to_fetch C (segment_plan L b 0 (manifest_lines content))).
           \<exists>c. http_get L (length (requests w) + i)
                  (fst (to_fetch C (segment_plan L b 0 (manifest_lines content)) ! i)) = Inr c"
  shows "\<exists>ts. fst (download_ts_segments_with_resume L content b C url w) = Inr ts"
proof -
  define st1 where
    "st1 = st0\<lparr>total_segments := int (length (filter is_ts_line (manifest_lines content)))\<rparr>"
  define w0 where "w0 = w\<lparr>files := save_download_state L url st1 (files w)\<rparr>"
  have "\<forall>i<length (to_fetch C (segment_plan L b (length ([]::string list)) (manifest_lines content))).
           \<exists>c. http_get L (length (requests w0) + i)
                  (fst (to_fetch C (segment_plan L b (length ([]::string list))
                     (manifest_lines content)) ! i)) = Inr c"
    using assms(2) by (simp add: w0_def)
  from resume_loop_ok [OF this, of url st1] obtain ts' st' w' where
    "resume_loop L b C url (manifest_lines content) w0 [] st1 = (Inr (ts', st'), w')"
    by blast
  then show ?thesis
    by (simp add: resume_run_cases [OF assms(1)] st1_def [symmetric] w0_def [symmetric])
qed

text \<open>
  Claim C2. For every filtered manifest and every completed-set, the GET requests of a
  resume-aware pass are, in order, requests for segments whose file name is not in the
  completed-set, and no others, whatever the outcome. When the pass returns, its result
  is the list of the file names of all matched segments in manifest order, completed
  ones at their positions, and every segment not completed has been requested once.
  The pass does return when the state loads and every such request succeeds.
\<close>
theorem resume_pass_skips_completed:
  "(\<exists>k. requests (snd (download_ts_segments_with_resume L content b C url w)) =
         requests w @ take k (map fst (to_fetch C (segment_plan L b 0 (manifest_lines content))))) \<and>
   (fst (download_ts_segments_with_resume L content b C url w) = Inr ts \<longrightarrow>
      ts = map snd (segment_plan L b 0 (manifest_lines content)) \<and>
      requests (snd (download_ts_segments_with_resume L content b C url w)) =
        requests w @ map fst (to_fetch C (segment_plan L b 0 (manifest_lines content)))) \<and>
   (load_download_state L url (files w) = Inr st0 \<and>
    (\<forall>i<length (to_fetch C (segment_plan L b 0 (manifest_lines content))).
       \<exists>c. http_get L (length (requests w) + i)
              (fst (to_fetch C (segment_plan L b 0 (manifest_lines content)) ! i)) = Inr c) \<longrightarrow>
      fst (download_ts_segments_with_resume L content b C url w) =
        Inr (map snd (segment_plan L b 0 (manifest_lines content))))"
proof (intro conjI impI)
  show "\<exists>k. requests (snd (download_ts_segments_with_resume L content b C url w)) =
         requests w @ take k (map fst (to_fetch C (segment_plan L b 0 (manifest_lines content))))"
    using resume_run_requests [of L content b C url w] by blast
next
  assume "fst (download_ts_segments_with_resume L content b C url w) = Inr ts"
  from resume_run_success [OF this]
  show "ts = map snd (segment_plan L b 0 (manifest_lines content))"
    and "requests (snd (download_ts_segments_with_resume L content b C url w)) =
        requests w @ map fst (to_fetch C (segment_plan L b 0 (manifest_lines content)))"
    by simp_all
next
  assume h: "load_download_state L url (files w) = Inr st0 \<and>
    (\<forall>i<length (to_fetch C (segment_plan L b 0 (manifest_lines content))).
       \<exists>c. http_get L (length (requests w) + i)
              (fst (to_fetch C (segment_plan L b 0 (manifest_lines content)) ! i)) = Inr c)"
  from resume_run_ok [OF h [THEN conjunct1] h [THEN conjunct2]] obtain ts' where
    t: "fst (download_ts_segments_with_resume L content b C url w) = Inr ts'"
    by blast
  from resume_run_success [OF t] t
  show "fst (download_ts_segments_with_resume L content b C url w) =
        Inr (map snd (segment_plan L b 0 (manifest_lines content)))"
    by simp
qed

lemma plain_run_success:
  assumes "fst (download_ts_segments L content b w) = Inr ts"
  shows "ts = map snd (segment_plan L b 0 (manifest_lines content))"
proof -
  obtain r w' where run: "download_loop L b (manifest_lines content) w [] = (r, w')"
    by (cases "download_loop L b (manifest_lines content) w []") auto
  with assms have "r = Inr ts" by (simp add: download_ts_segments_def)
  from download_loop_success [OF run [unfolded this]] show ?thesis by simp
qed

lemma plan_name:
  "i < length (filter is_ts_line lines) \<Longrightarrow>
   map snd (segment_plan L b 0 lines) ! i =
     segment_filename L (urljoin L b (filter is_ts_line lines ! i)) i"
  using segment_plan_nth [of i lines L b 0] by (simp add: segment_plan_length)

text \<open>
  Claim C4, as amended. For every segment whose resolved URL path has an empty base
  name, the file name in the result of either fetcher is \<open>segment_\<close>, the 0-based
  index of the segment among the matched lines of the filtered manifest, and the
  suffix \<open>.ts\<close>. Two resume-aware passes over the same manifest return the same
  names, whatever their completed-sets and worlds.
\<close>
theorem synthetic_segment_names:
  "((fst (download_ts_segments_with_resume L content b C url w) = Inr ts \<or>
     fst (download_ts_segments L content b w) = Inr ts) \<and>
    i < length (filter is_ts_line (manifest_lines content)) \<and>
    basename L (url_path L (urljoin L b (filter is_ts_line (manifest_lines content) ! i))) = []
    \<longrightarrow>
    length ts = length (filter is_ts_line (manifest_lines content)) \<and>
    ts ! i = ''segment_'' @ str_nat i @ ''.ts'') \<and>
   (fst (download_ts_segments_with_resume L content b C url w) = Inr ts \<and>
    fst (download_ts_segments_with_resume L content b C' url w') = Inr ts'
    \<longrightarrow> ts' = ts)"
proof (intro conjI impI)
  assume h: "(fst (download_ts_segments_with_resume L content b C url w) = Inr ts \<or>
     fst (download_ts_segments L content b w) = Inr ts) \<and>
    i < length (filter is_ts_line (manifest_lines content)) \<and>
    basename L (url_path L (urljoin L b (filter is_ts_line (manifest_lines content) ! i))) = []"
  then have ts: "ts = map snd (segment_plan L b 0 (manifest_lines content))"
    using resume_run_success [of L content b C url w ts] plain_run_success [of L content b w ts]
    by blast
  show "length ts = length (filter is_ts_line (manifest_lines content))"
    by (simp add: ts segment_plan_length)
  from h have i: "i < length (filter is_ts_line (manifest_lines content))" by blast
  from h show "ts ! i = ''segment_'' @ str_nat i @ ''.ts''"
    unfolding ts plan_name [OF i] by (simp add: segment_filename_def)
next
  assume "fst (download_ts_segments_with_resume L content b C url w) = Inr ts \<and>
    fst (download_ts_segments_with_resume L content b C' url w') = Inr ts'"
  then show "ts' = ts"
    using resume_run_success [of L content b C url w ts]
      resume_run_success [of L content b C' url w' ts']
    by simp
qed

text \<open>
  Claim C8. When the state loads, the requests for the segments before some segment
  succeed and the request for that segment fails with \<open>e\<close>, the pass ends with the
  error \<open>e\<close>; that segment's URL was requested once, as the last request; the state
  file holds the state saved after the last fetched segment, which names every segment
  recorded before the pass and every segment fetched in it. A second pass in the
  resulting world, with the completed-set read from that state, requests no segment
  before the failed one, and starts with the failed one unless an earlier segment has
  its name.
\<close>
theorem fetch_failure_propagates:
  assumes load: "load_download_state L url (files w) = Inr st0"
    and plan: "segment_plan L b 0 (manifest_lines content) = pre @ (u, f) # post"
    and f: "f \<notin> C"
    and ok: "\<forall>i<length (to_fetch C pre).
               \<exists>c. http_get L (length (requests w) + i) (fst (to_fetch C pre ! i)) = Inr c"
    and fail: "http_get L (length (requests w) + length (to_fetch C pre)) u = Inl e"
    and run: "run = download_ts_segments_with_resume L content b C url w"
    and st': "st' = persisted_after C pre
                (st0\<lparr>total_segments := int (length (filter is_ts_line (manifest_lines content)))\<rparr>)"
    and rerun: "rerun = download_ts_segments_with_resume L content b
                  (set (downloaded_segments st')) url (snd run)"
  shows "fst run = Inl e \<and>
         requests (snd run) = requests w @ map fst (to_fetch C pre) @ [u] \<and>
         files (snd run) (get_download_state_filename L url) = Some (json_dump L st') \<and>
         set (downloaded_segments st') = set (downloaded_segments st0) \<union> snd ` set (to_fetch C pre) \<and>
         (json_load L (json_dump L st') = Some st' \<and> C = set (downloaded_segments st0) \<longrightarrow>
            (\<exists>k. requests (snd rerun) =
                   requests (snd run) @
                   take k (map fst (to_fetch (set (downloaded_segments st')) ((u, f) # post)))) \<and>
            (f \<notin> snd ` set pre \<longrightarrow> (\<exists>rest. requests (snd rerun) = requests (snd run) @ u # rest)))"
proof -
  define st1 where
    "st1 = st0\<lparr>total_segments := int (length (filter is_ts_line (manifest_lines content)))\<rparr>"
  define w0 where "w0 = w\<lparr>files := save_download_state L url st1 (files w)\<rparr>"
  have p0: "segment_plan L b (length ([]::string list)) (manifest_lines content) = pre @ (u, f) # post"
    using plan by simp
  have ok0: "\<forall>i<length (to_fetch C pre).
               \<exists>c. http_get L (length (requests w0) + i) (fst (to_fetch C pre ! i)) = Inr c"
    using ok by (simp add: w0_def)
  have fail0: "http_get L (length (requests w0) + length (to_fetch C pre)) u = Inl e"
    using fail by (simp add: w0_def)
  have s0: "files w0 (get_download_state_filename L url) = Some (json_dump L st1)"
    by (simp add: w0_def save_state_file)
  from resume_loop_failure [OF p0 f ok0 fail0 s0] obtain w' where
    loop: "resume_loop L b C url (manifest_lines content) w0 [] st1 = (Inl e, w')" and
    req: "requests w' = requests w0 @ map fst (to_fetch C pre) @ [u]" and
    fil: "files w' (get_download_state_filename L url) =
            Some (json_dump L (fold record_segment (map snd (to_fetch C pre)) st1))"
    by blast
  have r: "run = (Inl e, w')"
    using loop by (simp add: run resume_run_cases [OF load] st1_def [symmetric] w0_def [symmetric])
  have st'': "st' = fold record_segment (map snd (to_fetch C pre)) st1"
    by (simp add: st' persisted_after_def st1_def)
  have names: "set (downloaded_segments st') = set (downloaded_segments st0) \<union> snd ` set (to_fetch C pre)"
    by (simp add: st'' fold_record_segment_set st1_def)
  have again: "(\<exists>k. requests (snd rerun) =
                   requests (snd run) @
                   take k (map fst (to_fetch (set (downloaded_segments st')) ((u, f) # post)))) \<and>
            (f \<notin> snd ` set pre \<longrightarrow> (\<exists>rest. requests (snd rerun) = requests (snd run) @ u # rest))"
    if rt: "json_load L (json_dump L st') = Some st'" and c: "C = set (downloaded_segments st0)"
  proof -
    let ?C = "set (downloaded_segments st')"
    have ld: "load_download_state L url (files w') = Inr st'"
      using fil rt by (simp add: load_download_state_def st'')
    have "snd ` set pre \<subseteq> ?C"
      using names_completed_or_fetched [of pre C] by (simp add: names c)
    then have "to_fetch ?C pre = []" by (rule to_fetch_all_completed)
    then have tf: "to_fetch ?C (segment_plan L b 0 (manifest_lines content)) =
                   to_fetch ?C ((u, f) # post)"
      by (simp add: plan to_fetch_append)
    from resume_run_requests [of L content b ?C url w'] obtain k where
      k: "requests (snd rerun) = requests w' @ take k (map fst (to_fetch ?C ((u, f) # post)))"
         "to_fetch ?C ((u, f) # post) \<noteq> [] \<longrightarrow> 0 < k"
      unfolding tf using ld by (auto simp: rerun r)
    have 1: "\<exists>k. requests (snd rerun) =
                   requests (snd run) @ take k (map fst (to_fetch ?C ((u, f) # post)))"
      using k(1) by (auto simp: r)
    have 2: "\<exists>rest. requests (snd rerun) = requests (snd run) @ u # rest" if n: "f \<notin> snd ` set pre"
    proof -
      have "snd ` set (to_fetch C pre) \<subseteq> snd ` set pre" by (auto simp: to_fetch_def)
      with n f have "f \<notin> ?C" by (auto simp: names c)
      then have t: "to_fetch ?C ((u, f) # post) = (u, f) # to_fetch ?C post"
        by (simp add: to_fetch_Cons)
      with k(2) obtain j where "k = Suc j" by (cases k) auto
      with k(1) show ?thesis by (simp add: t r)
    qed
    from 1 2 show ?thesis by blast
  qed
  show ?thesis
  proof (intro conjI impI)
    show "fst run = Inl e" by (simp add: r)
    show "requests (snd run) = requests w @ map fst (to_fetch C pre) @ [u]"
      using req by (simp add: r w0_def)
    show "files (snd run) (get_download_state_filename L url) = Some (json_dump L st')"
      using fil by (simp add: r st'')
    show "set (downloaded_segments st') = set (downloaded_segments st0) \<union> snd ` set (to_fetch C pre)"
      by (rule names)
  next
    assume h: "json_load L (json_dump L st') = Some st' \<and> C = set (downloaded_segments st0)"
    from again [OF h [THEN conjunct1] h [THEN conjunct2]]
    show "\<exists>k. requests (snd rerun) =
                   requests (snd run) @
                   take k (map fst (to_fetch (set (downloaded_segments st')) ((u, f) # post)))"
      by (rule conjunct1)
  next
    assume h: "json_load L (json_dump L st') = Some st' \<and> C = set (downloaded_segments st0)"
      and n: "f \<notin> snd ` set pre"
    from again [OF h [THEN conjunct1] h [THEN conjunct2]] n
    show "\<exists>rest. requests (snd rerun) = requests (snd run) @ u # rest"
      by blast
  qed
qed

theorem load_download_state_cases_witness:
  "load_download_state toy_lib ''http://h/v.m3u8'' Map.empty = Inr default_state \<and>
   load_download_state toy_lib ''http://h/v.m3u8'' saved_store =
     Inr \<lparr>downloaded_segments = [''seg_1.ts''], total_segments = 3\<rparr> \<and>
   load_download_state toy_lib ''http://h/v.m3u8'' corrupt_store = Inl JSONDecodeError"
proof -
  have a: "saved_store (get_download_state_filename toy_lib ''http://h/v.m3u8'') =
        Some (toy_dump \<lparr>downloaded_segments = [''seg_1.ts''], total_segments = 3\<rparr>)"
    by (simp add: saved_store_def)
  have b: "json_load toy_lib (toy_dump \<lparr>downloaded_segments = [''seg_1.ts''], total_segments = 3\<rparr>) =
        Some \<lparr>downloaded_segments = [''seg_1.ts''], total_segments = 3\<rparr>"
    by code_simp
  have c: "corrupt_store (get_download_state_filename toy_lib ''http://h/v.m3u8'') =
        Some ''{\"downloaded''"
    by (simp add: corrupt_store_def)
  have d: "json_load toy_lib ''{\"downloaded'' = None"
    by code_simp
  show ?thesis
    using load_download_state_cases [of Map.empty toy_lib "''http://h/v.m3u8''"]
      load_download_state_cases [of saved_store toy_lib "''http://h/v.m3u8''"
        "toy_dump \<lparr>downloaded_segments = [''seg_1.ts''], total_segments = 3\<rparr>"
        "\<lparr>downloaded_segments = [''seg_1.ts''], total_segments = 3\<rparr>"]
      load_download_state_cases [of corrupt_store toy_lib "''http://h/v.m3u8''" "''{\"downloaded''"]
      a b c d
    by simp
qed

lemma three_plan:
  "segment_plan toy_lib ''http://h/'' 0 (manifest_lines three_segments) =
     [(''http://h/seg_1.ts'', ''seg_1.ts''), (''http://h/seg_2.ts'', ''seg_2.ts''),
      (''http://h/seg_3.ts'', ''seg_3.ts'')]"
  by code_simp

lemma toy_get_ok: "\<not> contains url ''missing'' \<Longrightarrow> http_get toy_lib n url = Inr (''data:'' @ url)"
  by (simp add: toy_lib_def)

lemma toy_get_fails: "contains url ''missing'' \<Longrightarrow> http_get toy_lib n url = Inl (RequestError url)"
  by (simp add: toy_lib_def)

lemma empty_world_load:
  "load_download_state toy_lib ''http://h/v.m3u8'' (files empty_world) = Inr default_state"
  by (simp add: load_download_state_def empty_world_def)

theorem resume_pass_skips_completed_witness:
  "fst (download_ts_segments_with_resume toy_lib three_segments ''http://h/'' {''seg_2.ts''}
          ''http://h/v.m3u8'' empty_world) = Inr [''seg_1.ts'', ''seg_2.ts'', ''seg_3.ts''] \<and>
   requests (snd (download_ts_segments_with_resume toy_lib three_segments ''http://h/'' {''seg_2.ts''}
          ''http://h/v.m3u8'' empty_world)) = [''http://h/seg_1.ts'', ''http://h/seg_3.ts'']"
proof -
  have tf: "to_fetch {''seg_2.ts''} (segment_plan toy_lib ''http://h/'' 0 (manifest_lines three_segments)) =
      [(''http://h/seg_1.ts'', ''seg_1.ts''), (''http://h/seg_3.ts'', ''seg_3.ts'')]"
    unfolding three_plan by (simp add: to_fetch_def)
  have n: "\<not> contains ''http://h/seg_1.ts'' ''missing''" "\<not> contains ''http://h/seg_3.ts'' ''missing''"
    by code_simp+
  have ok: "\<forall>i<length (to_fetch {''seg_2.ts''}
                (segment_plan toy_lib ''http://h/'' 0 (manifest_lines three_segments))).
       \<exists>c. http_get toy_lib (length (requests empty_world) + i)
              (fst (to_fetch {''seg_2.ts''}
                (segment_plan toy_lib ''http://h/'' 0 (manifest_lines three_segments)) ! i)) = Inr c"
    unfolding tf by (auto simp: less_Suc_eq toy_get_ok [OF n(1)] toy_get_ok [OF n(2)])
  note t = resume_pass_skips_completed [of toy_lib three_segments "''http://h/''" "{''seg_2.ts''}"
      "''http://h/v.m3u8''" empty_world "[''seg_1.ts'', ''seg_2.ts'', ''seg_3.ts'']" default_state]
  from t empty_world_load ok
  have r: "fst (download_ts_segments_with_resume toy_lib three_segments ''http://h/'' {''seg_2.ts''}
          ''http://h/v.m3u8'' empty_world) = Inr [''seg_1.ts'', ''seg_2.ts'', ''seg_3.ts'']"
    unfolding three_plan by simp
  with t have "requests (snd (download_ts_segments_with_resume toy_lib three_segments ''http://h/''
          {''seg_2.ts''} ''http://h/v.m3u8'' empty_world)) =
        requests empty_world @ map fst (to_fetch {''seg_2.ts''}
           (segment_plan toy_lib ''http://h/'' 0 (manifest_lines three_segments)))"
    by blast
  with r show ?thesis
    unfolding tf by (simp add: empty_world_def)
qed

lemma unnamed_resumed:
  "fst (download_ts_segments_with_resume toy_lib unnamed_manifest ''http://h/'' {''a.ts''}
          ''http://h/v.m3u8'' empty_world) = Inr [''a.ts'', ''segment_1.ts'']"
  by code_simp

lemma unnamed_fresh:
  "fst (download_ts_segments_with_resume toy_lib unnamed_manifest ''http://h/'' {}
          ''http://h/v.m3u8'' empty_world) = Inr [''a.ts'', ''segment_1.ts'']"
  by code_simp

lemma unnamed_lines: "filter is_ts_line (manifest_lines unnamed_manifest) = [''a.ts'', ''dir/?x=.ts'']"
  by code_simp

lemma unnamed_basename: "basename toy_lib (url_path toy_lib (urljoin toy_lib ''http://h/'' ''dir/?x=.ts'')) = []"
  by code_simp

theorem synthetic_segment_names_witness:
  "fst (download_ts_segments_with_resume toy_lib unnamed_manifest ''http://h/'' {''a.ts''}
          ''http://h/v.m3u8'' empty_world) = Inr [''a.ts'', ''segment_1.ts''] \<and>
   fst (download_ts_segments_with_resume toy_lib unnamed_manifest ''http://h/'' {}
          ''http://h/v.m3u8'' empty_world) = Inr [''a.ts'', ''segment_1.ts''] \<and>
   basename toy_lib (url_path toy_lib (urljoin toy_lib ''http://h/''
      (filter is_ts_line (manifest_lines unnamed_manifest) ! 1))) = [] \<and>
   [''a.ts'', ''segment_1.ts''] ! 1 = ''segment_'' @ str_nat 1 @ ''.ts''"
  using synthetic_segment_names [of toy_lib unnamed_manifest "''http://h/''" "{''a.ts''}"
      "''http://h/v.m3u8''" empty_world "[''a.ts'', ''segment_1.ts'']" 1 "{}" empty_world
      "[''a.ts'', ''segment_1.ts'']"]
    unnamed_resumed unnamed_fresh
  by (simp add: unnamed_lines unnamed_basename)

text \<open>
  A manifest of one segment with an empty base name: both fetchers name it
  \<open>segment_0.ts\<close>, not \<open>segment_0\<close>.
\<close>
theorem synthetic_name_has_ts_suffix:
  "fst (download_ts_segments_with_resume toy_lib ''dir/?x=.ts'' ''http://h/'' {}
          ''http://h/v.m3u8'' empty_world) = Inr [''segment_0.ts''] \<and>
   fst (download_ts_segments toy_lib ''dir/?x=.ts'' ''http://h/'' empty_world) = Inr [''segment_0.ts''] \<and>
   ''segment_0.ts'' \<noteq> ''segment_'' @ str_nat 0"
  by code_simp

lemma failing_plan:
  "segment_plan toy_lib ''http://h/'' 0 (manifest_lines failing_manifest) =
     [(''http://h/seg_1.ts'', ''seg_1.ts''), (''http://h/seg_2.ts'', ''seg_2.ts'')] @
     (''http://h/missing_3.ts'', ''missing_3.ts'') # [(''http://h/seg_4.ts'', ''seg_4.ts'')]"
  by code_simp

lemma failing_persisted:
  "persisted_after {} [(''http://h/seg_1.ts'', ''seg_1.ts''), (''http://h/seg_2.ts'', ''seg_2.ts'')]
     (default_state\<lparr>total_segments :=
        int (length (filter is_ts_line (manifest_lines failing_manifest)))\<rparr>) =
   \<lparr>downloaded_segments = [''seg_1.ts'', ''seg_2.ts''], total_segments = 4\<rparr>"
  by code_simp

lemma failing_roundtrip:
  "json_load toy_lib (json_dump toy_lib
      \<lparr>downloaded_segments = [''seg_1.ts'', ''seg_2.ts''], total_segments = 4\<rparr>) =
   Some \<lparr>downloaded_segments = [''seg_1.ts'', ''seg_2.ts''], total_segments = 4\<rparr>"
  by code_simp

theorem fetch_failure_propagates_witness:
  "fst (download_ts_segments_with_resume toy_lib failing_manifest ''http://h/'' {}
          ''http://h/v.m3u8'' empty_world) = Inl (RequestError ''http://h/missing_3.ts'') \<and>
   requests (snd (download_ts_segments_with_resume toy_lib failing_manifest ''http://h/'' {}
          ''http://h/v.m3u8'' empty_world)) =
     [''http://h/seg_1.ts'', ''http://h/seg_2.ts'', ''http://h/missing_3.ts''] \<and>
   files (snd (download_ts_segments_with_resume toy_lib failing_manifest ''http://h/'' {}
          ''http://h/v.m3u8'' empty_world)) (get_download_state_filename toy_lib ''http://h/v.m3u8'') =
     Some (json_dump toy_lib \<lparr>downloaded_segments = [''seg_1.ts'', ''seg_2.ts''], total_segments = 4\<rparr>) \<and>
   (\<exists>rest.
      requests (snd (download_ts_segments_with_resume toy_lib failing_manifest ''http://h/''
          (set [''seg_1.ts'', ''seg_2.ts'']) ''http://h/v.m3u8''
          (snd (download_ts_segments_with_resume toy_lib failing_manifest ''http://h/'' {}
             ''http://h/v.m3u8'' empty_world)))) =
      [''http://h/seg_1.ts'', ''http://h/seg_2.ts'', ''http://h/missing_3.ts''] @
      ''http://h/missing_3.ts'' # rest)"
proof -
  have n: "\<not> contains ''http://h/seg_1.ts'' ''missing''" "\<not> contains ''http://h/seg_2.ts'' ''missing''"
    "contains ''http://h/missing_3.ts'' ''missing''"
    by code_simp+
  have tf: "to_fetch {} [(''http://h/seg_1.ts'', ''seg_1.ts''), (''http://h/seg_2.ts'', ''seg_2.ts'')] =
      [(''http://h/seg_1.ts'', ''seg_1.ts''), (''http://h/seg_2.ts'', ''seg_2.ts'')]"
    by (simp add: to_fetch_def)
  have ok: "\<forall>i<length (to_fetch {} [(''http://h/seg_1.ts'', ''seg_1.ts''), (''http://h/seg_2.ts'', ''seg_2.ts'')]).
       \<exists>c. http_get toy_lib (length (requests empty_world) + i)
              (fst (to_fetch {} [(''http://h/seg_1.ts'', ''seg_1.ts''),
                 (''http://h/seg_2.ts'', ''seg_2.ts'')] ! i)) = Inr c"
    unfolding tf by (auto simp: less_Suc_eq toy_get_ok [OF n(1)] toy_get_ok [OF n(2)])
  have fail: "http_get toy_lib (length (requests empty_world) +
       length (to_fetch {} [(''http://h/seg_1.ts'', ''seg_1.ts''), (''http://h/seg_2.ts'', ''seg_2.ts'')]))
       ''http://h/missing_3.ts'' = Inl (RequestError ''http://h/missing_3.ts'')"
    by (rule toy_get_fails [OF n(3)])
  have f: "''missing_3.ts'' \<notin> ({}::string set)" by simp
  note t = fetch_failure_propagates [OF empty_world_load failing_plan f ok fail refl refl refl,
      unfolded failing_persisted]
  have c: "({}::string set) = set (downloaded_segments default_state)"
    by (simp add: default_state_def)
  have d: "''missing_3.ts'' \<notin> snd ` set [(''http://h/seg_1.ts'', ''seg_1.ts''),
      (''http://h/seg_2.ts'', ''seg_2.ts'')]"
    by simp
  have e: "requests empty_world = []"
    by (simp add: empty_world_def)
  note again = t [THEN conjunct2, THEN conjunct2, THEN conjunct2, THEN conjunct2, THEN mp,
      OF conjI [OF failing_roundtrip c], THEN conjunct2, THEN mp, OF d]
  from t have first: "fst (download_ts_segments_with_resume toy_lib failing_manifest ''http://h/'' {}
          ''http://h/v.m3u8'' empty_world) = Inl (RequestError ''http://h/missing_3.ts'')"
    and req: "requests (snd (download_ts_segments_with_resume toy_lib failing_manifest ''http://h/'' {}
          ''http://h/v.m3u8'' empty_world)) =
       [''http://h/seg_1.ts'', ''http://h/seg_2.ts'', ''http://h/missing_3.ts'']"
    and fil: "files (snd (download_ts_segments_with_resume toy_lib failing_manifest ''http://h/'' {}
          ''http://h/v.m3u8'' empty_world)) (get_download_state_filename toy_lib ''http://h/v.m3u8'') =
       Some (json_dump toy_lib \<lparr>downloaded_segments = [''seg_1.ts'', ''seg_2.ts''], total_segments = 4\<rparr>)"
    unfolding tf by (simp_all add: e)
  from again show ?thesis
    unfolding req by (simp add: first req fil)
qed

end
